theory Spec2Isabelle
  imports Complex_Main
begin

section \<open>Python values: strings, slices, insertion-ordered dictionaries\<close>

text \<open>
  Strings are lists of characters with code points below 256. The helpers below are
  the \<^verbatim>\<open>str\<close> methods the sources call, with Python's behaviour on that range.
\<close>

definition NL :: string where
  "NL = [CHR 0x0A]"

definition is_space :: "char \<Rightarrow> bool" where
  "is_space c = ((of_char c :: nat) \<in> {9, 10, 11, 12, 13, 28, 29, 30, 31, 32, 133, 160})"

definition is_digit :: "char \<Rightarrow> bool" where
  "is_digit c = ((48 \<le> (of_char c :: nat) \<and> (of_char c :: nat) \<le> 57)
                 \<or> (of_char c :: nat) \<in> {178, 179, 185})"

definition lower_char :: "char \<Rightarrow> char" where
  "lower_char c =
     (let n = (of_char c :: nat)
      in if (65 \<le> n \<and> n \<le> 90) \<or> (192 \<le> n \<and> n \<le> 222 \<and> n \<noteq> 215)
         then char_of (n + 32) else c)"

definition lower :: "string \<Rightarrow> string" where
  "lower s = map lower_char s"

definition strip :: "string \<Rightarrow> string" where
  "strip s = rev (dropWhile is_space (rev (dropWhile is_space s)))"

definition startswith :: "string \<Rightarrow> string \<Rightarrow> bool" where
  "startswith s p = (take (length p) s = p)"

fun contains :: "string \<Rightarrow> string \<Rightarrow> bool" where
  "contains [] p = (p = [])"
| "contains (x # xs) p = (startswith (x # xs) p \<or> contains xs p)"

text \<open>\<^verbatim>\<open>s.split(c, 1)\<close>: one or two pieces, cut at the first \<^verbatim>\<open>c\<close>.\<close>

definition split1 :: "char \<Rightarrow> string \<Rightarrow> string list" where
  "split1 c s =
     (case dropWhile (\<lambda>x. x \<noteq> c) s of
        [] \<Rightarrow> [s]
      | _ # rest \<Rightarrow> [takeWhile (\<lambda>x. x \<noteq> c) s, rest])"

text \<open>\<^verbatim>\<open>s.split(c)\<close>: cut at every \<^verbatim>\<open>c\<close>; the empty string gives one empty piece.\<close>

fun split :: "char \<Rightarrow> string \<Rightarrow> string list" where
  "split c [] = [[]]"
| "split c (x # xs) =
     (if x = c then [] # split c xs
      else (case split c xs of
              [] \<Rightarrow> [[x]]
            | l # ls \<Rightarrow> (x # l) # ls))"

text \<open>\<^verbatim>\<open>sep.join(pieces)\<close>.\<close>

fun join :: "string \<Rightarrow> string list \<Rightarrow> string" where
  "join sep [] = []"
| "join sep [x] = x"
| "join sep (x # y # ys) = x @ sep @ join sep (y # ys)"

text \<open>\<^verbatim>\<open>str(n)\<close> for an integer.\<close>

fun show_nat :: "nat \<Rightarrow> string" where
  "show_nat n =
     (if n < 10 then [char_of (48 + n)]
      else show_nat (n div 10) @ [char_of (48 + n mod 10)])"

definition show_int :: "int \<Rightarrow> string" where
  "show_int i = (if i < 0 then CHR ''-'' # show_nat (nat (- i)) else show_nat (nat i))"

text \<open>
  \<^verbatim>\<open>xs[-n:]\<close>. Python turns the start \<^verbatim>\<open>-n\<close> into an offset: a negative start counts
  from the end and is clipped at 0, a start of 0 (that is \<^verbatim>\<open>n = 0\<close>) is the whole list.
\<close>

definition last_slice :: "int \<Rightarrow> 'a list \<Rightarrow> 'a list" where
  "last_slice n xs =
     (let len = int (length xs);
          start = (if - n < 0 then max (len - n) 0 else min (- n) len)
      in drop (nat start) xs)"

text \<open>
  A \<^verbatim>\<open>dict\<close> keeps its keys in insertion order (the order \<^verbatim>\<open>items()\<close>, \<^verbatim>\<open>keys()\<close>
  and \<^verbatim>\<open>min\<close> over the items see), so it is a list of key-value pairs with distinct keys.
  Assigning to a key that is present keeps its position; a new key goes to the end.
\<close>

type_synonym ('k, 'v) dict = "('k \<times> 'v) list"

definition dict_keys :: "('k, 'v) dict \<Rightarrow> 'k list" where
  "dict_keys d = map fst d"

definition dict_get :: "('k, 'v) dict \<Rightarrow> 'k \<Rightarrow> 'v option" where
  "dict_get d k = map_of d k"

fun dict_set :: "'k \<Rightarrow> 'v \<Rightarrow> ('k, 'v) dict \<Rightarrow> ('k, 'v) dict" where
  "dict_set k v [] = [(k, v)]"
| "dict_set k v (p # ps) = (if fst p = k then (k, v) # ps else p # dict_set k v ps)"

text \<open>\<^verbatim>\<open>d[k] += n\<close> on a \<^verbatim>\<open>defaultdict\<close> whose default is \<^verbatim>\<open>z\<close>.\<close>

definition dict_add :: "'v::plus \<Rightarrow> 'k \<Rightarrow> 'v \<Rightarrow> ('k, 'v) dict \<Rightarrow> ('k, 'v) dict" where
  "dict_add z k n d = dict_set k ((case dict_get d k of None \<Rightarrow> z | Some v \<Rightarrow> v) + n) d"

datatype py_error = ValueError string | IndexError | ZeroDivisionError

section \<open>The world outside: text generation, randomness, the clock\<close>

text \<open>
  The HTTP endpoint, the random number generator and the wall clock are not part of the
  program. Each is an arbitrary function of the number of earlier uses (and, for the
  endpoint, of the request), so that every run of the program is the run under some
  environment, and a theorem for all environments holds for every run.
\<close>

datatype http_outcome =
    Ok200 string          \<comment> \<open>status 200; the text of the \<^verbatim>\<open>response\<close> field, empty when absent\<close>
  | Status nat            \<comment> \<open>any other status code\<close>
  | Timeout               \<comment> \<open>\<^verbatim>\<open>requests.exceptions.Timeout\<close>\<close>
  | Failed string         \<comment> \<open>any other exception, with its message\<close>

record env =
  http_post :: "nat \<Rightarrow> string \<Rightarrow> string \<Rightarrow> http_outcome"
  rng :: "nat \<Rightarrow> nat"
  clock :: "nat \<Rightarrow> string"

record world =
  total_requests :: nat
  failed_requests :: nat
  rng_used :: nat
  clock_used :: nat

text \<open>\<^verbatim>\<open>LLMInterface.generate\<close>: never raises; a failure becomes an error text.\<close>

definition generate :: "env \<Rightarrow> string \<Rightarrow> string \<Rightarrow> world \<Rightarrow> string \<times> world" where
  "generate e prompt mdl w =
     (let w1 = w\<lparr>total_requests := total_requests w + 1\<rparr>;
          w2 = w1\<lparr>failed_requests := failed_requests w1 + 1\<rparr>
      in case http_post e (total_requests w) prompt mdl of
           Ok200 body \<Rightarrow> (strip body, w1)
         | Status code \<Rightarrow> (''[Error: API returned status '' @ show_nat code @ '']'', w2)
         | Timeout \<Rightarrow> (''[Error: Request timeout]'', w2)
         | Failed msg \<Rightarrow> (''[Error: '' @ msg @ '']'', w2))"

text \<open>\<^verbatim>\<open>datetime.now().isoformat()\<close>.\<close>

definition now_isoformat :: "env \<Rightarrow> world \<Rightarrow> string \<times> world" where
  "now_isoformat e w = (clock e (clock_used w), w\<lparr>clock_used := clock_used w + 1\<rparr>)"

text \<open>One raw draw of the generator.\<close>

definition draw :: "env \<Rightarrow> world \<Rightarrow> nat \<times> world" where
  "draw e w = (rng e (rng_used w), w\<lparr>rng_used := rng_used w + 1\<rparr>)"

text \<open>
  \<^verbatim>\<open>random.choice(xs)\<close> on a non-empty list: the element at a drawn index below the
  length. Every call in the sources passes a non-empty list (agent.py guards at line 161,
  evolution.py passes literals).
\<close>

definition random_choice :: "env \<Rightarrow> 'a list \<Rightarrow> world \<Rightarrow> 'a \<times> world" where
  "random_choice e xs w = (let (r, w1) = draw e w in (xs ! (r mod length xs), w1))"

text \<open>\<^verbatim>\<open>random.randint(a, b)\<close> for \<^verbatim>\<open>a <= b\<close>.\<close>

definition random_randint :: "env \<Rightarrow> nat \<Rightarrow> nat \<Rightarrow> world \<Rightarrow> nat \<times> world" where
  "random_randint e a b w = (let (r, w1) = draw e w in (a + r mod (b - a + 1), w1))"

text \<open>
  \<^verbatim>\<open>random.random() < p\<close>: the generator returns \<^verbatim>\<open>k / 2**53\<close> for an integer
  \<^verbatim>\<open>0 <= k < 2**53\<close>; the float \<^verbatim>\<open>p\<close> is the rational number it denotes.
\<close>

definition random_lt :: "env \<Rightarrow> rat \<Rightarrow> world \<Rightarrow> bool \<times> world" where
  "random_lt e p w = (let (r, w1) = draw e w in (of_int (int r mod 2 ^ 53) / 2 ^ 53 < p, w1))"

text \<open>
  \<^verbatim>\<open>random.sample(xs, k)\<close> for \<^verbatim>\<open>k <= len(xs)\<close>: \<^verbatim>\<open>k\<close> elements at distinct positions,
  each picked by a draw among the positions left. \<^verbatim>\<open>random.shuffle\<close> is the sample of
  all positions.
\<close>

fun random_sample :: "env \<Rightarrow> 'a list \<Rightarrow> nat \<Rightarrow> world \<Rightarrow> 'a list \<times> world" where
  "random_sample e xs 0 w = ([], w)"
| "random_sample e xs (Suc k) w =
     (if xs = [] then ([], w)
      else (let (r, w1) = draw e w;
                i = r mod length xs;
                (rest, w2) = random_sample e (take i xs @ drop (Suc i) xs) k w1
            in (xs ! i # rest, w2)))"

definition random_shuffle :: "env \<Rightarrow> 'a list \<Rightarrow> world \<Rightarrow> 'a list \<times> world" where
  "random_shuffle e xs w = random_sample e xs (length xs) w"

text \<open>
  \<^verbatim>\<open>random.choices(xs, weights=ws, k=1)[0]\<close> for positive integer weights: a point
  below the total weight is drawn, and the first element whose cumulative weight exceeds
  it is returned. An empty population raises.
\<close>

fun pick_weighted :: "'a list \<Rightarrow> nat list \<Rightarrow> nat \<Rightarrow> 'a option" where
  "pick_weighted [] ws r = None"
| "pick_weighted (x # xs) [] r = None"
| "pick_weighted [x] (wt # ws) r = Some x"
| "pick_weighted (x # y # xs) (wt # ws) r =
     (if r < wt then Some x else pick_weighted (y # xs) ws (r - wt))"

definition random_choices1 :: "env \<Rightarrow> 'a list \<Rightarrow> nat list \<Rightarrow> world \<Rightarrow> (py_error + 'a) \<times> world" where
  "random_choices1 e xs ws w =
     (if xs = [] then (Inl IndexError, w)
      else if sum_list ws = 0 then (Inl (ValueError ''Total of weights must be greater than zero''), w)
      else (let (r, w1) = draw e w
            in case pick_weighted xs ws (r mod sum_list ws) of
                 None \<Rightarrow> (Inl IndexError, w1)
               | Some x \<Rightarrow> (Inr x, w1)))"

section \<open>agent.py\<close>

record memory_entry =
  mem_type :: string
  mem_content :: string
  mem_round :: int
  mem_timestamp :: string

text \<open>
  The four counters start at 0 and are only ever increased, and the generation of a child
  is its parent's plus one, so they are natural numbers.
\<close>

record agent =
  name :: string
  personality_prompt :: string
  memory :: "memory_entry list"
  model :: string
  generation :: nat
  parent_name :: "string option"
  birth_round :: int
  votes_received :: nat
  votes_cast :: nat
  rounds_survived :: nat
  answers_given :: nat

text \<open>\<^verbatim>\<open>Agent.__init__\<close>.\<close>

definition Agent :: "string \<Rightarrow> string \<Rightarrow> string \<Rightarrow> nat \<Rightarrow> string option \<Rightarrow> int \<Rightarrow> agent" where
  "Agent nm personality mdl gen parent born =
     \<lparr>name = nm, personality_prompt = personality, memory = [], model = mdl,
      generation = gen, parent_name = parent, birth_round = born,
      votes_received = 0, votes_cast = 0, rounds_survived = 0, answers_given = 0\<rparr>"

text \<open>config.py: \<^verbatim>\<open>MAX_MEMORY_SIZE\<close>.\<close>

definition MAX_MEMORY_SIZE :: int where
  "MAX_MEMORY_SIZE = 10"

text \<open>
  \<^verbatim>\<open>Agent.add_memory\<close>, with the cap it reads from the configuration as a parameter:
  append the entry, then keep the last \<^verbatim>\<open>cap\<close> entries if there are more than \<^verbatim>\<open>cap\<close>.
\<close>

definition add_memory_cap ::
  "int \<Rightarrow> env \<Rightarrow> string \<Rightarrow> string \<Rightarrow> int \<Rightarrow> agent \<times> world \<Rightarrow> agent \<times> world" where
  "add_memory_cap cap e memory_type content round_num s =
     (let (self, w) = s;
          (stamp, w1) = now_isoformat e w;
          memory_entry = \<lparr>mem_type = memory_type, mem_content = content,
                          mem_round = round_num, mem_timestamp = stamp\<rparr>;
          appended = memory self @ [memory_entry]
      in (self\<lparr>memory := (if int (length appended) > cap then last_slice cap appended
                             else appended)\<rparr>, w1))"

definition add_memory ::
  "env \<Rightarrow> string \<Rightarrow> string \<Rightarrow> int \<Rightarrow> agent \<times> world \<Rightarrow> agent \<times> world" where
  "add_memory = add_memory_cap MAX_MEMORY_SIZE"

text \<open>\<^verbatim>\<open>Agent.get_memory_context\<close>, with its default of 5 memories.\<close>

definition get_memory_context :: "agent \<Rightarrow> string" where
  "get_memory_context self =
     (if memory self = [] then ''No previous memories.''
      else ''Recent memories:'' @ NL @
           concat (map (\<lambda>mem. ''- Round '' @ show_int (mem_round mem) @ '' ('' @ mem_type mem
                                 @ ''): '' @ take 100 (mem_content mem) @ ''...'' @ NL)
                       (last_slice 5 (memory self))))"

text \<open>\<^verbatim>\<open>Agent.generate_answer\<close>.\<close>

definition generate_answer ::
  "env \<Rightarrow> string \<Rightarrow> int \<Rightarrow> agent \<times> world \<Rightarrow> string \<times> agent \<times> world" where
  "generate_answer e question round_num s =
     (let (self, w) = s;
          memory_context = get_memory_context self;
          full_prompt =
            ''You are '' @ name self @ '', an AI agent with the following personality:'' @ NL
            @ personality_prompt self @ NL @ NL
            @ memory_context @ NL @ NL
            @ ''Question: '' @ question @ NL @ NL
            @ ''Provide a thoughtful answer that reflects your unique personality and perspective. ''
            @ ''Be concise but insightful (2-4 sentences).'';
          (answer, w1) = generate e full_prompt (model self) w;
          (self1, w2) = add_memory e ''answer'' (''Q: '' @ question @ '' | A: '' @ answer) round_num (self, w1)
      in (answer, self1\<lparr>answers_given := answers_given self1 + 1\<rparr>, w2))"

text \<open>The candidates an agent may choose among: all answers, without its own unless allowed.\<close>

definition available_answers :: "bool \<Rightarrow> string \<Rightarrow> (string, string) dict \<Rightarrow> (string, string) dict" where
  "available_answers allow_self_voting self_name answers =
     filter (\<lambda>(k, v). allow_self_voting \<or> k \<noteq> self_name) answers"

definition answers_text :: "(string, string) dict \<Rightarrow> string" where
  "answers_text available =
     join (NL @ NL) (map (\<lambda>(nm, answer). ''Agent '' @ nm @ '':'' @ NL @ answer) available)"

definition voting_prompt :: "agent \<Rightarrow> string \<Rightarrow> (string, string) dict \<Rightarrow> string" where
  "voting_prompt self question available =
     ''You are '' @ name self @ '', an AI agent with this personality:'' @ NL
     @ personality_prompt self @ NL @ NL
     @ ''Question that was asked: '' @ question @ NL @ NL
     @ ''Here are the answers from different agents:'' @ NL @ NL
     @ answers_text available @ NL @ NL
     @ ''Based on your personality and values, which agent gave the BEST answer? '' @ NL
     @ ''Respond with ONLY the agent'' @ [CHR 0x27] @ ''s name on the first line, ''
     @ ''followed by a 1-2 sentence justification on the next line.'' @ NL @ NL
     @ ''Format:'' @ NL
     @ ''Agent Name'' @ NL
     @ ''Justification here.''"

text \<open>
  The parsing step of \<^verbatim>\<open>vote_on_answers\<close>: the name on the first line of the response
  and the justification on the rest. \<^verbatim>\<open>split\<close> always returns a first piece.
\<close>

definition parse_vote :: "string \<Rightarrow> string \<times> string" where
  "parse_vote vote_response =
     (let lines = split1 (CHR 0x0A) (strip vote_response)
      in (strip (lines ! 0),
          if length lines > 1 then strip (lines ! 1) else ''No justification provided.''))"

text \<open>
  \<^verbatim>\<open>Agent.vote_on_answers\<close>: the result is the pair (voted name, justification), the
  agent and the world after the call.
\<close>

definition vote_on_answers ::
  "env \<Rightarrow> string \<Rightarrow> (string, string) dict \<Rightarrow> int \<Rightarrow> bool \<Rightarrow> agent \<times> world
     \<Rightarrow> (string \<times> string) \<times> agent \<times> world" where
  "vote_on_answers e question answers round_num allow_self_voting s =
     (let (self, w) = s;
          available = available_answers allow_self_voting (name self) answers
      in if available = [] then ((name self, ''No other options available.''), self, w)
         else
           (let (vote_response, w1) = generate e (voting_prompt self question available) (model self) w;
                (parsed_name, parsed_justification) = parse_vote vote_response;
                (voted_for, justification, w2) =
                  (if parsed_name \<notin> set (dict_keys available)
                   then (let (chosen, w2) = random_choice e (dict_keys available) w1
                         in (chosen, ''Vote parsing failed, random selection made.'', w2))
                   else (parsed_name, parsed_justification, w1));
                (self1, w3) = add_memory e ''vote''
                                (''Voted for '' @ voted_for @ '': '' @ justification) round_num (self, w2)
            in ((voted_for, justification), self1\<lparr>votes_cast := votes_cast self1 + 1\<rparr>, w3)))"

section \<open>voting.py\<close>

record vote_detail =
  voter :: string
  voted_for :: string
  justification :: string

record ranking_detail =
  ranking_voter :: string
  rankings :: "string list"
  ranking_justification :: string

text \<open>
  The result dictionaries of the two methods. The points of a ranked vote are Python
  floats that only ever hold sums of integers, which floats add exactly (below \<open>2\<^sup>5\<^sup>3\<close>);
  they are integers here.
\<close>

datatype vote_result =
    SingleChoice (result_round: int) (result_question: string)
      (votes: "(string, nat) dict") (vote_details: "vote_detail list")
      (justifications: "(string, string list) dict") (total_votes: nat)
  | RankedChoice (result_round: int) (result_question: string)
      (points: "(string, int) dict") (ranking_details: "ranking_detail list") (total_votes: nat)

record voting_system =
  voting_method :: string
  allow_self_voting :: bool
  vote_history :: "vote_result list"

text \<open>\<^verbatim>\<open>VotingSystem.__init__\<close>.\<close>

definition VotingSystem :: "string \<Rightarrow> bool \<Rightarrow> voting_system" where
  "VotingSystem meth allow = \<lparr>voting_method = meth, allow_self_voting = allow, vote_history = []\<rparr>"

text \<open>\<^verbatim>\<open>justifications[k].append(x)\<close> on a \<^verbatim>\<open>defaultdict(list)\<close>.\<close>

definition dict_append :: "'k \<Rightarrow> 'a \<Rightarrow> ('k, 'a list) dict \<Rightarrow> ('k, 'a list) dict" where
  "dict_append k x d = dict_set k ((case dict_get d k of None \<Rightarrow> [] | Some xs \<Rightarrow> xs) @ [x]) d"

text \<open>
  The first loop of \<^verbatim>\<open>_single_choice_vote\<close>: every agent votes in turn; the tally, the
  details and the justifications grow, and each agent and the world are updated.
\<close>

fun collect_votes ::
  "env \<Rightarrow> string \<Rightarrow> (string, string) dict \<Rightarrow> int \<Rightarrow> bool \<Rightarrow> agent list
     \<Rightarrow> (string, nat) dict \<times> vote_detail list \<times> (string, string list) dict \<times> world
     \<Rightarrow> agent list \<times> (string, nat) dict \<times> vote_detail list \<times> (string, string list) dict \<times> world" where
  "collect_votes e question answers round_num allow [] acc = ([], acc)"
| "collect_votes e question answers round_num allow (agent # rest) acc =
     (let (vs, details, justs, w) = acc;
          ((chosen, why), agent1, w1) = vote_on_answers e question answers round_num allow (agent, w);
          vs1 = dict_add 0 chosen 1 vs;
          details1 = details @ [\<lparr>voter = name agent, voted_for = chosen, justification = why\<rparr>];
          justs1 = dict_append chosen (name agent @ '': '' @ why) justs;
          (rest1, acc1) = collect_votes e question answers round_num allow rest (vs1, details1, justs1, w1)
      in (agent1 # rest1, acc1))"

text \<open>The second loop: every agent whose name is in the tally receives its count.\<close>

definition update_votes_received :: "(string, nat) dict \<Rightarrow> agent list \<Rightarrow> agent list" where
  "update_votes_received vs agents =
     map (\<lambda>agent. case dict_get vs (name agent) of
                     None \<Rightarrow> agent
                   | Some n \<Rightarrow> agent\<lparr>votes_received := votes_received agent + n\<rparr>) agents"

text \<open>\<^verbatim>\<open>VotingSystem._single_choice_vote\<close>.\<close>

definition single_choice_vote ::
  "env \<Rightarrow> voting_system \<Rightarrow> agent list \<Rightarrow> string \<Rightarrow> (string, string) dict \<Rightarrow> int \<Rightarrow> world
     \<Rightarrow> vote_result \<times> voting_system \<times> agent list \<times> world" where
  "single_choice_vote e self agents question answers round_num w =
     (let (agents1, vs, details, justs, w1) =
            collect_votes e question answers round_num (allow_self_voting self) agents ([], [], [], w);
          agents2 = update_votes_received vs agents1;
          result = SingleChoice round_num question vs details justs (length agents)
      in (result, self\<lparr>vote_history := vote_history self @ [result]\<rparr>, agents2, w1))"

definition ranking_prompt :: "agent \<Rightarrow> string \<Rightarrow> (string, string) dict \<Rightarrow> string" where
  "ranking_prompt agent question available =
     ''You are '' @ name agent @ ''. Rank ALL of the following answers from BEST to WORST.'' @ NL @ NL
     @ ''Question: '' @ question @ NL @ NL
     @ ''Answers:'' @ NL
     @ answers_text available @ NL @ NL
     @ ''Provide your ranking as a numbered list with the agent names, ''
     @ ''followed by a brief justification.'' @ NL @ NL
     @ ''Format:'' @ NL
     @ ''1. [Agent Name]'' @ NL
     @ ''2. [Agent Name]'' @ NL
     @ ''3. [Agent Name]'' @ NL
     @ ''...'' @ NL @ NL
     @ ''Justification: [Your reasoning]''"

text \<open>
  One line of a ranking response: a justification line sets the justification; a line that
  starts with a digit or a dash and names a candidate after its first dot (or, without a
  dot, its first dash) is appended to the ranking; any other line is skipped.
\<close>

definition parse_ranking_line ::
  "(string, string) dict \<Rightarrow> string list \<times> string \<Rightarrow> string \<Rightarrow> string list \<times> string" where
  "parse_ranking_line available acc raw =
     (let (ranked_list, why) = acc;
          line = strip raw
      in if startswith (lower line) ''justification''
         then (ranked_list, if CHR '':'' \<in> set line then strip (split1 (CHR '':'') line ! 1) else [])
         else if line \<noteq> [] \<and> (is_digit (line ! 0) \<or> startswith line ''-'')
         then (let parts = (if CHR ''.'' \<in> set line then split1 (CHR ''.'') line
                            else split1 (CHR ''-'') line)
               in if length parts > 1 \<and> strip (parts ! 1) \<in> set (dict_keys available)
                  then (ranked_list @ [strip (parts ! 1)], why)
                  else (ranked_list, why))
         else (ranked_list, why))"

text \<open>\<^verbatim>\<open>VotingSystem._get_agent_rankings\<close>; the agent itself is not changed.\<close>

definition get_agent_rankings ::
  "env \<Rightarrow> voting_system \<Rightarrow> agent \<Rightarrow> string \<Rightarrow> (string, string) dict \<Rightarrow> int \<Rightarrow> world
     \<Rightarrow> (string list \<times> string) \<times> world" where
  "get_agent_rankings e self agent question answers round_num w =
     (let available = available_answers (allow_self_voting self) (name agent) answers
      in if available = [] then (([name agent], ''No other options available.''), w)
         else
           (let (response, w1) = generate e (ranking_prompt agent question available) (model agent) w;
                (ranked_list, why) =
                  foldl (parse_ranking_line available) ([], []) (split (CHR 0x0A) (strip response))
            in if ranked_list = []
               then (let (shuffled, w2) = random_shuffle e (dict_keys available) w1
                     in ((shuffled, ''Ranking parsing failed, random order used.''), w2))
               else ((ranked_list, why), w1)))"

text \<open>The first loop of \<^verbatim>\<open>_ranked_choice_vote\<close>.\<close>

fun collect_rankings ::
  "env \<Rightarrow> voting_system \<Rightarrow> string \<Rightarrow> (string, string) dict \<Rightarrow> int \<Rightarrow> agent list
     \<Rightarrow> string list list \<times> ranking_detail list \<times> world
     \<Rightarrow> string list list \<times> ranking_detail list \<times> world" where
  "collect_rankings e self question answers round_num [] acc = acc"
| "collect_rankings e self question answers round_num (agent # rest) acc =
     (let (rks, details, w) = acc;
          ((ranked_list, why), w1) = get_agent_rankings e self agent question answers round_num w
      in collect_rankings e self question answers round_num rest
           (rks @ [ranked_list],
            details @ [\<lparr>ranking_voter = name agent, rankings = ranked_list,
                         ranking_justification = why\<rparr>],
            w1))"

text \<open>
  The points of one ranking: the name at position \<^verbatim>\<open>idx\<close> receives
  \<^verbatim>\<open>num_candidates - idx\<close>.
\<close>

fun award_ranking :: "int \<Rightarrow> nat \<Rightarrow> string list \<Rightarrow> (string, int) dict \<Rightarrow> (string, int) dict" where
  "award_ranking num_candidates idx [] pts = pts"
| "award_ranking num_candidates idx (agent_name # rest) pts =
     award_ranking num_candidates (Suc idx) rest
       (dict_add 0 agent_name (num_candidates - int idx) pts)"

definition award_points :: "int \<Rightarrow> string list list \<Rightarrow> (string, int) dict" where
  "award_points num_candidates rks = foldl (\<lambda>pts ranking. award_ranking num_candidates 0 ranking pts) [] rks"

text \<open>\<^verbatim>\<open>VotingSystem._ranked_choice_vote\<close>.\<close>

definition ranked_choice_vote ::
  "env \<Rightarrow> voting_system \<Rightarrow> agent list \<Rightarrow> string \<Rightarrow> (string, string) dict \<Rightarrow> int \<Rightarrow> world
     \<Rightarrow> vote_result \<times> voting_system \<times> agent list \<times> world" where
  "ranked_choice_vote e self agents question answers round_num w =
     (let (rks, details, w1) = collect_rankings e self question answers round_num agents ([], [], w);
          pts = award_points (int (length answers)) rks;
          result = RankedChoice round_num question pts details (length agents)
      in (result, self\<lparr>vote_history := vote_history self @ [result]\<rparr>, agents, w1))"

text \<open>\<^verbatim>\<open>VotingSystem.conduct_vote\<close>.\<close>

definition conduct_vote ::
  "env \<Rightarrow> voting_system \<Rightarrow> agent list \<Rightarrow> string \<Rightarrow> (string, string) dict \<Rightarrow> int \<Rightarrow> world
     \<Rightarrow> py_error + (vote_result \<times> voting_system \<times> agent list \<times> world)" where
  "conduct_vote e self agents question answers round_num w =
     (if voting_method self = ''single-choice''
      then Inr (single_choice_vote e self agents question answers round_num w)
      else if voting_method self = ''ranked-choice''
      then Inr (ranked_choice_vote e self agents question answers round_num w)
      else Inl (ValueError (''Unknown voting method: '' @ voting_method self)))"

text \<open>
  \<^verbatim>\<open>min(items, key=value)\<close> and \<^verbatim>\<open>max(items, key=value)\<close>: the first item, in the
  dictionary's order, with the least (greatest) value.
\<close>

fun min_item :: "'k \<times> 'v::linorder \<Rightarrow> ('k \<times> 'v) list \<Rightarrow> 'k \<times> 'v" where
  "min_item best [] = best"
| "min_item best (x # xs) = min_item (if snd x < snd best then x else best) xs"

fun max_item :: "'k \<times> 'v::linorder \<Rightarrow> ('k \<times> 'v) list \<Rightarrow> 'k \<times> 'v" where
  "max_item best [] = best"
| "max_item best (x # xs) = max_item (if snd x > snd best then x else best) xs"

text \<open>\<^verbatim>\<open>VotingSystem.get_loser\<close> and \<^verbatim>\<open>VotingSystem.get_winner\<close>.\<close>

definition get_loser :: "vote_result \<Rightarrow> string" where
  "get_loser vote_result =
     (case vote_result of
        SingleChoice _ _ vs _ _ _ \<Rightarrow> (case vs of [] \<Rightarrow> [] | x # xs \<Rightarrow> fst (min_item x xs))
      | RankedChoice _ _ pts _ _ \<Rightarrow> (case pts of [] \<Rightarrow> [] | x # xs \<Rightarrow> fst (min_item x xs)))"

definition get_winner :: "vote_result \<Rightarrow> string" where
  "get_winner vote_result =
     (case vote_result of
        SingleChoice _ _ vs _ _ _ \<Rightarrow> (case vs of [] \<Rightarrow> [] | x # xs \<Rightarrow> fst (max_item x xs))
      | RankedChoice _ _ pts _ _ \<Rightarrow> (case pts of [] \<Rightarrow> [] | x # xs \<Rightarrow> fst (max_item x xs)))"

text \<open>The keys of a result's tally: of \<^verbatim>\<open>votes\<close> or of \<^verbatim>\<open>points\<close>.\<close>

definition tally_keys :: "vote_result \<Rightarrow> string list" where
  "tally_keys vote_result =
     (case vote_result of
        SingleChoice _ _ vs _ _ _ \<Rightarrow> dict_keys vs
      | RankedChoice _ _ pts _ _ \<Rightarrow> dict_keys pts)"

section \<open>config.py and evolution.py\<close>

definition MUTATION_RATE :: rat where
  "MUTATION_RATE = 5404319552844595 / 2 ^ 54"  \<comment> \<open>the float \<^verbatim>\<open>0.3\<close>\<close>

definition MUTATION_TRAITS :: "string list" where
  "MUTATION_TRAITS =
     [''more analytical'', ''more creative'', ''more skeptical'', ''more optimistic'',
      ''more concise'', ''more detailed'', ''more humorous'', ''more serious'',
      ''more technical'', ''more philosophical'', ''more practical'', ''more abstract'',
      ''more empathetic'', ''more logical'', ''more intuitive'']"

record elimination_record =
  er_round :: int
  er_agent_name :: string
  er_generation :: nat
  er_parent :: "string option"
  er_rounds_survived :: nat
  er_votes_received :: nat
  er_answers_given :: nat
  er_reason :: string
  er_personality :: string

record creation_record =
  cr_round :: int
  cr_agent_name :: string
  cr_generation :: nat
  cr_parent :: string
  cr_personality :: string
  cr_mutations_applied :: "string list"

record evolution_manager =
  mutation_rate :: rat
  mutation_traits :: "string list"
  elimination_history :: "elimination_record list"
  creation_history :: "creation_record list"

text \<open>\<^verbatim>\<open>EvolutionManager.__init__\<close>: an empty trait list is replaced by the configured one.\<close>

definition EvolutionManager :: "rat \<Rightarrow> string list \<Rightarrow> evolution_manager" where
  "EvolutionManager rate traits =
     \<lparr>mutation_rate = rate,
      mutation_traits = (if traits = [] then MUTATION_TRAITS else traits),
      elimination_history = [], creation_history = []\<rparr>"

text \<open>
  The loop of \<^verbatim>\<open>eliminate_agent\<close>: pop the first agent with the loser's name and stop;
  the result is the list left and the agent popped, if any.
\<close>

fun pop_first_named :: "string \<Rightarrow> agent list \<Rightarrow> agent list \<times> agent option" where
  "pop_first_named loser_name [] = ([], None)"
| "pop_first_named loser_name (agent # rest) =
     (if name agent = loser_name then (rest, Some agent)
      else (let (rest1, popped) = pop_first_named loser_name rest in (agent # rest1, popped)))"

text \<open>
  \<^verbatim>\<open>EvolutionManager.eliminate_agent\<close>: the agent removed (or \<^verbatim>\<open>None\<close>), the population
  after the call and the manager after the call.
\<close>

definition eliminate_agent ::
  "evolution_manager \<Rightarrow> agent list \<Rightarrow> string \<Rightarrow> int \<Rightarrow> string
     \<Rightarrow> agent option \<times> agent list \<times> evolution_manager" where
  "eliminate_agent self agents loser_name round_num reason =
     (let (agents1, eliminated_agent) = pop_first_named loser_name agents
      in case eliminated_agent of
           None \<Rightarrow> (None, agents1, self)
         | Some gone \<Rightarrow>
             (Some gone, agents1,
              self\<lparr>elimination_history := elimination_history self @
                [\<lparr>er_round = round_num, er_agent_name = name gone,
                  er_generation = generation gone, er_parent = parent_name gone,
                  er_rounds_survived = rounds_survived gone,
                  er_votes_received = votes_received gone,
                  er_answers_given = answers_given gone, er_reason = reason,
                  er_personality = take 200 (personality_prompt gone) @ ''...''\<rparr>]\<rparr>))"

text \<open>\<^verbatim>\<open>EvolutionManager._select_parent\<close>.\<close>

definition select_parent :: "env \<Rightarrow> agent list \<Rightarrow> world \<Rightarrow> (py_error + agent) \<times> world" where
  "select_parent e agents w =
     (let by_votes = map (\<lambda>agent. votes_received agent + 1) agents;
          weights = (if length (remdups by_votes) = 1
                     then map (\<lambda>agent. rounds_survived agent + 1) agents else by_votes)
      in random_choices1 e agents weights w)"

text \<open>\<^verbatim>\<open>EvolutionManager._evolve_personality\<close>.\<close>

definition evolve_personality :: "env \<Rightarrow> evolution_manager \<Rightarrow> agent \<Rightarrow> world \<Rightarrow> string \<times> world" where
  "evolve_personality e self parent w =
     (let (mutating, w1) = random_lt e (mutation_rate self) w
      in if mutating
         then (let (num_mutations, w2) = random_randint e 1 3 w1;
                   (selected_traits, w3) =
                     random_sample e (mutation_traits self)
                       (min num_mutations (length (mutation_traits self))) w2
               in (personality_prompt parent @ NL @ NL @ ''Evolved traits: ''
                   @ ''You have evolved to be '' @ join '', '' selected_traits @ ''. ''
                   @ ''You inherit your parent'' @ [CHR 0x27] @ ''s core values ''
                   @ ''but express them through these new traits.'', w3))
         else (personality_prompt parent @ NL @ NL
               @ ''You are a refined version of your predecessor, ''
               @ ''maintaining their core philosophy.'', w1))"

definition evolution_suffixes :: "string list" where
  "evolution_suffixes =
     [''Evolved'', ''2.0'', ''Redux'', ''Reborn'', ''Neo'',
      ''Next'', ''Prime'', ''Enhanced'', ''Advanced'', ''Plus'']"

definition adjectives :: "string list" where
  "adjectives =
     [''Adaptive'', ''Strategic'', ''Resilient'', ''Dynamic'', ''Innovative'',
      ''Insightful'', ''Cunning'', ''Wise'', ''Bold'', ''Swift'']"

definition nouns :: "string list" where
  "nouns =
     [''Thinker'', ''Scholar'', ''Mind'', ''Sage'', ''Oracle'',
      ''Strategist'', ''Visionary'', ''Pioneer'', ''Master'', ''Expert'']"

text \<open>
  \<^verbatim>\<open>EvolutionManager._generate_evolved_name\<close>; \<^verbatim>\<open>0.6\<close> is the float's exact value.
  A base name that is \<^verbatim>\<open>None\<close> or empty is not used.
\<close>

definition generate_evolved_name :: "env \<Rightarrow> agent \<Rightarrow> string option \<Rightarrow> world \<Rightarrow> string \<times> world" where
  "generate_evolved_name e parent base_name w =
     (case (case base_name of None \<Rightarrow> [] | Some b \<Rightarrow> b) of
        c # cs \<Rightarrow> ((c # cs) @ '' II'', w)
      | [] \<Rightarrow>
          (let (suffix, w1) = random_choice e evolution_suffixes w;
               (keep_parent_name, w2) = random_lt e (5404319552844595 / 2 ^ 53) w1
           in if keep_parent_name then (name parent @ '' '' @ suffix, w2)
              else (let (adj, w3) = random_choice e adjectives w2;
                        (noun, w4) = random_choice e nouns w3
                    in (''The '' @ adj @ '' '' @ noun, w4))))"

text \<open>\<^verbatim>\<open>EvolutionManager._extract_mutations\<close>.\<close>

definition extract_mutations :: "evolution_manager \<Rightarrow> string \<Rightarrow> string list" where
  "extract_mutations self personality =
     filter (\<lambda>trait. contains (lower personality) trait) (mutation_traits self)"

text \<open>
  \<^verbatim>\<open>EvolutionManager.create_evolved_agent\<close>: raises on an empty population; otherwise
  the new agent, with the manager and the world after the call.
\<close>

definition create_evolved_agent ::
  "env \<Rightarrow> evolution_manager \<Rightarrow> agent list \<Rightarrow> int \<Rightarrow> string \<Rightarrow> string option \<Rightarrow> world
     \<Rightarrow> (py_error + agent) \<times> evolution_manager \<times> world" where
  "create_evolved_agent e self existing_agents round_num mdl base_name w =
     (if existing_agents = []
      then (Inl (ValueError ''Cannot create evolved agent with no existing agents''), self, w)
      else (case select_parent e existing_agents w of
              (Inl err, w1) \<Rightarrow> (Inl err, self, w1)
            | (Inr parent, w1) \<Rightarrow>
                (let (new_personality, w2) = evolve_personality e self parent w1;
                     (new_name, w3) = generate_evolved_name e parent base_name w2;
                     new_agent = Agent new_name new_personality mdl (generation parent + 1)
                                   (Some (name parent)) round_num;
                     creation = \<lparr>cr_round = round_num, cr_agent_name = name new_agent,
                                  cr_generation = generation new_agent, cr_parent = name parent,
                                  cr_personality = take 200 new_personality @ ''...'',
                                  cr_mutations_applied = extract_mutations self new_personality\<rparr>
                 in (Inr new_agent,
                     self\<lparr>creation_history := creation_history self @ [creation]\<rparr>, w3))))"

text \<open>
  \<^verbatim>\<open>EvolutionManager.get_lineage\<close>. The loop follows parent names through the roster
  (the first entry bearing the name) for as long as the current agent has a non-empty
  parent name and the name is found; on a roster whose parent names form a cycle it never
  ends, which is the value \<^verbatim>\<open>None\<close> here.
\<close>

partial_function (option) lineage_loop :: "agent list \<Rightarrow> agent \<Rightarrow> string list \<Rightarrow> string list option" where
  "lineage_loop all_history current lineage =
     (case parent_name current of
        None \<Rightarrow> Some lineage
      | Some pn \<Rightarrow>
          if pn = [] then Some lineage
          else (case find (\<lambda>historical_agent. name historical_agent = pn) all_history of
                  None \<Rightarrow> Some (lineage @ [pn])
                | Some parent \<Rightarrow> lineage_loop all_history parent (lineage @ [pn])))"

declare lineage_loop.simps [code]

definition get_lineage :: "agent \<Rightarrow> agent list \<Rightarrow> string list option" where
  "get_lineage agent all_history = map_option rev (lineage_loop all_history agent [name agent])"

section \<open>simulation.py\<close>

record personality =
  p_name :: string
  p_personality :: string

record round_result =
  rr_round :: int
  rr_question :: string
  rr_answers :: "(string, string) dict"
  rr_votes :: vote_result
  rr_eliminated :: string
  rr_evolved :: string

text \<open>
  The state of a \<^verbatim>\<open>HungerGamesSimulation\<close>. The logger only records what it is given
  and is left out. The historical roster holds the agents as they were when they were
  created: the source shares the objects with the active list, and nothing reads a
  counter or the memory of an agent through the roster.
\<close>

record simulation =
  num_agents :: int
  num_rounds :: int
  default_model :: string
  verbose :: bool
  voting :: voting_system
  evolution :: evolution_manager
  agents :: "agent list"
  current_round :: int
  all_agents_history :: "agent list"

text \<open>
  config.py: \<^verbatim>\<open>ALLOW_SELF_VOTING\<close>; and \<^verbatim>\<open>HungerGamesSimulation.__init__\<close>.
\<close>

definition ALLOW_SELF_VOTING :: bool where
  "ALLOW_SELF_VOTING = False"

definition HungerGamesSimulation :: "int \<Rightarrow> int \<Rightarrow> string \<Rightarrow> string \<Rightarrow> bool \<Rightarrow> simulation" where
  "HungerGamesSimulation n rounds mdl meth vb =
     \<lparr>num_agents = n, num_rounds = rounds, default_model = mdl, verbose = vb,
      voting = VotingSystem meth ALLOW_SELF_VOTING,
      evolution = EvolutionManager MUTATION_RATE MUTATION_TRAITS,
      agents = [], current_round = 0, all_agents_history = []\<rparr>"

text \<open>
  The padding loop of \<^verbatim>\<open>initialize_agents\<close>: while the list is too short, append
  \<^verbatim>\<open>personalities[len(personalities) % len(personalities)]\<close>.
\<close>

function pad_personalities :: "int \<Rightarrow> personality list \<Rightarrow> py_error + personality list" where
  "pad_personalities n personalities =
     (if int (length personalities) < n
      then (if length personalities = 0 then Inl ZeroDivisionError
            else pad_personalities n
                   (personalities @ [personalities ! (length personalities mod length personalities)]))
      else Inr personalities)"
  by pat_completeness auto
termination
  by (relation "measure (\<lambda>(n, personalities). nat (n - int (length personalities)))") auto

text \<open>
  \<^verbatim>\<open>HungerGamesSimulation.initialize_agents\<close> for a given list of personalities: one
  founder for each of the first \<^verbatim>\<open>num_agents\<close> entries of the padded list.
\<close>

definition initialize_agents :: "simulation \<Rightarrow> personality list \<Rightarrow> py_error + simulation" where
  "initialize_agents self personalities =
     (case pad_personalities (num_agents self) personalities of
        Inl err \<Rightarrow> Inl err
      | Inr padded \<Rightarrow>
          (let created = map (\<lambda>i. Agent (p_name (padded ! i)) (p_personality (padded ! i))
                                     (default_model self) 0 None 0)
                             [0 ..< nat (num_agents self)]
           in Inr (self\<lparr>agents := agents self @ created,
                        all_agents_history := all_agents_history self @ created\<rparr>)))"

text \<open>The answer phase of \<^verbatim>\<open>run_round\<close>: every agent answers in turn.\<close>

fun collect_answers ::
  "env \<Rightarrow> string \<Rightarrow> int \<Rightarrow> agent list \<Rightarrow> (string, string) dict \<times> world
     \<Rightarrow> agent list \<times> (string, string) dict \<times> world" where
  "collect_answers e question round_num [] acc = ([], acc)"
| "collect_answers e question round_num (agent # rest) acc =
     (let (answers, w) = acc;
          (answer, agent1, w1) = generate_answer e question round_num (agent, w);
          (rest1, acc1) = collect_answers e question round_num rest (dict_set (name agent) answer answers, w1)
      in (agent1 # rest1, acc1))"

text \<open>
  \<^verbatim>\<open>HungerGamesSimulation.run_round\<close>. An exception leaves the state as it was when it
  was raised. When verbose, the vote summary reads the first entry of the sorted tally and
  raises on an empty one.
\<close>

definition run_round ::
  "env \<Rightarrow> simulation \<Rightarrow> int \<Rightarrow> string \<Rightarrow> world \<Rightarrow> (py_error + round_result) \<times> simulation \<times> world" where
  "run_round e self round_num question w =
     (let survivors = map (\<lambda>agent. agent\<lparr>rounds_survived := rounds_survived agent + 1\<rparr>) (agents self);
          (answered, answers, w1) = collect_answers e question round_num survivors ([], w)
      in case conduct_vote e (voting self) answered question answers round_num w1 of
           Inl err \<Rightarrow> (Inl err, self\<lparr>agents := answered\<rparr>, w1)
         | Inr (vote_results, voting1, voted, w2) \<Rightarrow>
             (let self1 = self\<lparr>agents := voted, voting := voting1\<rparr>
              in if verbose self \<and> tally_keys vote_results = [] then (Inl IndexError, self1, w2)
                 else
                   (let loser_name = get_loser vote_results;
                        (eliminated_agent, remaining, evolution1) =
                          eliminate_agent (evolution self) voted loser_name round_num
                            ''Received fewest votes'';
                        self2 = self1\<lparr>agents := remaining, evolution := evolution1\<rparr>
                    in case create_evolved_agent e evolution1 remaining round_num
                              (default_model self) None w2 of
                         (Inl err, evolution2, w3) \<Rightarrow> (Inl err, self2\<lparr>evolution := evolution2\<rparr>, w3)
                       | (Inr new_agent, evolution2, w3) \<Rightarrow>
                           (Inr \<lparr>rr_round = round_num, rr_question = question,
                                 rr_answers = answers, rr_votes = vote_results,
                                 rr_eliminated = loser_name, rr_evolved = name new_agent\<rparr>,
                            self2\<lparr>agents := remaining @ [new_agent],
                                  all_agents_history := all_agents_history self @ [new_agent],
                                  evolution := evolution2\<rparr>,
                            w3))))"

section \<open>Notions used in the statements\<close>

text \<open>
  The entries a sequence of \<^verbatim>\<open>add_memory\<close> calls builds, the first at clock reading
  \<open>n\<close>, and the agent after the whole sequence of calls.
\<close>

fun stamped :: "env \<Rightarrow> nat \<Rightarrow> (string \<times> string \<times> int) list \<Rightarrow> memory_entry list" where
  "stamped e n [] = []"
| "stamped e n ((memory_type, content, round_num) # rest) =
     \<lparr>mem_type = memory_type, mem_content = content, mem_round = round_num,
      mem_timestamp = clock e n\<rparr> # stamped e (Suc n) rest"

definition add_memories ::
  "int \<Rightarrow> env \<Rightarrow> (string \<times> string \<times> int) list \<Rightarrow> agent \<times> world \<Rightarrow> agent \<times> world" where
  "add_memories cap e insertions s =
     foldl (\<lambda>s (memory_type, content, round_num). add_memory_cap cap e memory_type content round_num s)
           s insertions"

text \<open>
  The names some voter chose: the votes cast in a single-choice result, the names ranked in
  a ranked-choice result.
\<close>

definition chosen_names :: "vote_result \<Rightarrow> string set" where
  "chosen_names vote_result =
     (case vote_result of
        SingleChoice _ _ _ ds _ _ \<Rightarrow> voted_for ` set ds
      | RankedChoice _ _ _ ds _ \<Rightarrow> \<Union> (set ` rankings ` set ds))"

text \<open>
  One step of the lineage walk: the roster entry it moves to from an agent, if any; the
  relation of these steps; a walk from an agent meets no cycle if no agent it reaches can
  be reached from itself. A founder has no parent name (\<^verbatim>\<open>None\<close> or empty).
\<close>

definition parent_lookup :: "agent list \<Rightarrow> agent \<Rightarrow> agent option" where
  "parent_lookup all_history current =
     (case parent_name current of
        None \<Rightarrow> None
      | Some pn \<Rightarrow> if pn = [] then None
                   else find (\<lambda>historical_agent. name historical_agent = pn) all_history)"

definition lookups :: "agent list \<Rightarrow> (agent \<times> agent) set" where
  "lookups all_history = {(current, parent). parent_lookup all_history current = Some parent}"

definition no_cycle :: "agent list \<Rightarrow> agent \<Rightarrow> bool" where
  "no_cycle all_history agent =
     (\<forall>x. (agent, x) \<in> (lookups all_history)\<^sup>* \<longrightarrow> (x, x) \<notin> (lookups all_history)\<^sup>+)"

definition is_founder :: "agent \<Rightarrow> bool" where
  "is_founder agent = (parent_name agent = None \<or> parent_name agent = Some [])"

text \<open>
  The points one ranking gives to a name: \<^verbatim>\<open>num_candidates - idx\<close> for every position
  \<^verbatim>\<open>idx\<close> at which the ranking has it. The value a \<^verbatim>\<open>defaultdict\<close> of numbers holds
  for a key.
\<close>

definition ranking_points :: "int \<Rightarrow> string list \<Rightarrow> string \<Rightarrow> int" where
  "ranking_points num_candidates ranking x =
     (\<Sum>idx\<leftarrow>[0 ..< length ranking]. if ranking ! idx = x then num_candidates - int idx else 0)"

definition held :: "('k, int) dict \<Rightarrow> 'k \<Rightarrow> int" where
  "held d k = (case dict_get d k of None \<Rightarrow> 0 | Some v \<Rightarrow> v)"

text \<open>The population of a round after its first step: every agent has survived one more round.\<close>

definition survivors_of :: "simulation \<Rightarrow> agent list" where
  "survivors_of self = map (\<lambda>agent. agent\<lparr>rounds_survived := rounds_survived agent + 1\<rparr>) (agents self)"

text \<open>
  The rankings the voters of a ranked-choice vote give: every agent of the population is
  asked in turn by \<^verbatim>\<open>_get_agent_rankings\<close>, in the world the previous one left.
\<close>

fun rankings_of_voters ::
  "env \<Rightarrow> voting_system \<Rightarrow> string \<Rightarrow> (string, string) dict \<Rightarrow> int \<Rightarrow> agent list \<Rightarrow> world
     \<Rightarrow> string list list" where
  "rankings_of_voters e self question answers round_num [] w = []"
| "rankings_of_voters e self question answers round_num (agent # rest) w =
     fst (fst (get_agent_rankings e self agent question answers round_num w))
     # rankings_of_voters e self question answers round_num rest
         (snd (get_agent_rankings e self agent question answers round_num w))"

text \<open>
  What a round did, if it returned: the name it eliminated, the keys of its tally and the
  names of the population after it.
\<close>

definition round_summary ::
  "(py_error + round_result) \<times> simulation \<times> world \<Rightarrow> (string \<times> string list \<times> string list) option" where
  "round_summary outcome =
     (case fst outcome of
        Inl err \<Rightarrow> None
      | Inr result \<Rightarrow>
          Some (rr_eliminated result, tally_keys (rr_votes result),
                map name (agents (fst (snd outcome)))))"

section \<open>Concrete inputs\<close>

text \<open>
  An environment whose endpoint answers the first request with \<^verbatim>\<open>Bo\<close> and every later
  one with \<^verbatim>\<open>Al\<close>, whose generator draws 0, 1, 2, ... and whose clock reads 0, 1, 2, ...
\<close>

definition env0 :: env where
  "env0 = \<lparr>http_post = (\<lambda>n prompt mdl. Ok200 (if n = 0 then ''Bo'' else ''Al'')),
           rng = (\<lambda>n. n), clock = (\<lambda>n. show_nat n)\<rparr>"

definition world0 :: world where
  "world0 = \<lparr>total_requests = 0, failed_requests = 0, rng_used = 0, clock_used = 0\<rparr>"

definition founder :: "string \<Rightarrow> agent" where
  "founder nm = Agent nm ''You are curious.'' ''llama2'' 0 None 0"

definition fifteen :: "(string \<times> string \<times> int) list" where
  "fifteen = map (\<lambda>i. (''answer'', show_nat i, 1)) [0 ..< 15]"

text \<open>The same world after one request and one draw.\<close>

definition world1 :: world where
  "world1 = \<lparr>total_requests = 1, failed_requests = 0, rng_used = 1, clock_used = 0\<rparr>"

text \<open>An endpoint that ranks \<^verbatim>\<open>Al\<close> first on the second request and \<^verbatim>\<open>Bo\<close> on any other.\<close>

definition env1 :: env where
  "env1 = \<lparr>http_post = (\<lambda>n prompt mdl. Ok200 (if n = 1 then ''1. Al'' else ''1. Bo'')),
           rng = (\<lambda>n. n), clock = (\<lambda>n. show_nat n)\<rparr>"

definition population0 :: "agent list" where
  "population0 = [founder ''Al'', founder ''Bo'', founder ''Cy'']"

definition answers0 :: "(string, string) dict" where
  "answers0 = [(''Al'', ''Be kind.''), (''Bo'', ''Be quick.''), (''Cy'', ''Be quiet.'')]"

definition manager0 :: evolution_manager where
  "manager0 = EvolutionManager MUTATION_RATE MUTATION_TRAITS"

text \<open>A roster of a founder, its child and its grandchild, and an agent whose parent is not in it.\<close>

definition roster0 :: "agent list" where
  "roster0 = [founder ''Al'',
              Agent ''Al Neo'' ''You are curious, refined.'' ''llama2'' 1 (Some ''Al'') 1,
              Agent ''Al Neo Prime'' ''You are curious, refined twice.'' ''llama2'' 2 (Some ''Al Neo'') 2]"

definition orphan0 :: agent where
  "orphan0 = Agent ''Bo Redux'' ''You are quick.'' ''llama2'' 1 (Some ''Bo'') 3"

text \<open>Two personalities for a population of four.\<close>

definition seeds0 :: "personality list" where
  "seeds0 = [\<lparr>p_name = ''Al'', p_personality = ''You are curious.''\<rparr>,
             \<lparr>p_name = ''Bo'', p_personality = ''You are quick.''\<rparr>]"

definition simulation0 :: "int \<Rightarrow> simulation" where
  "simulation0 n = HungerGamesSimulation n 8 ''llama2'' ''single-choice'' True"

text \<open>A simulation of three agents, about to run its first round.\<close>

definition simulation3 :: simulation where
  "simulation3 = (simulation0 3)\<lparr>agents := population0, all_agents_history := population0\<rparr>"


text \<open>An endpoint that always ranks all three names.\<close>

definition env2 :: env where
  "env2 = \<lparr>http_post = (\<lambda>n prompt mdl. Ok200 (''1. Al'' @ NL @ ''2. Bo'' @ NL @ ''3. Cy'')),
           rng = (\<lambda>n. n), clock = (\<lambda>n. show_nat n)\<rparr>"

section \<open>The bounded memory of an agent\<close>

lemma last_slice_pos: "0 < n \<Longrightarrow> last_slice n xs = drop (length xs - nat n) xs"
  by (auto simp: last_slice_def Let_def max_def intro: arg_cong[where f="\<lambda>k. drop k xs"])

lemma length_stamped [simp]: "length (stamped e n es) = length es"
  by (induction e n es rule: stamped.induct) auto

lemma add_memory_cap_step:
  assumes "0 < cap" "length (memory self) \<le> nat cap"
  shows "add_memory_cap cap e t c r (self, w) =
     (self\<lparr>memory := drop (Suc (length (memory self)) - nat cap)
                         (memory self @ [\<lparr>mem_type = t, mem_content = c, mem_round = r,
                                          mem_timestamp = clock e (clock_used w)\<rparr>])\<rparr>,
      w\<lparr>clock_used := clock_used w + 1\<rparr>)"
  using assms by (auto simp: add_memory_cap_def now_isoformat_def last_slice_pos Let_def)

text \<open>
  With a positive cap and a memory within the cap, the memory after any sequence of
  insertions is the tail of everything recorded so far.
\<close>

lemma add_memories_general:
  assumes "0 < cap" "length (memory self) \<le> nat cap"
  shows "memory (fst (add_memories cap e es (self, w))) =
           drop (length (memory self) + length es - nat cap)
                (memory self @ stamped e (clock_used w) es)"
  using assms
proof (induction es arbitrary: self w)
  case Nil
  then show ?case by (simp add: add_memories_def)
next
  case (Cons x es)
  obtain t c r where x: "x = (t, c, r)" by (cases x) auto
  let ?entry = "\<lparr>mem_type = t, mem_content = c, mem_round = r, mem_timestamp = clock e (clock_used w)\<rparr>"
  let ?self1 = "self\<lparr>memory := drop (Suc (length (memory self)) - nat cap) (memory self @ [?entry])\<rparr>"
  let ?w1 = "w\<lparr>clock_used := clock_used w + 1\<rparr>"
  have step: "add_memories cap e (x # es) (self, w) = add_memories cap e es (?self1, ?w1)"
    using Cons.prems by (simp add: add_memories_def x add_memory_cap_step)
  have len1: "length (memory ?self1) \<le> nat cap" using Cons.prems by auto
  have "memory (fst (add_memories cap e es (?self1, ?w1))) =
          drop (length (memory ?self1) + length es - nat cap)
               (memory ?self1 @ stamped e (clock_used ?w1) es)"
    using Cons.IH[OF Cons.prems(1) len1] by simp
  also have "\<dots> = drop (length (memory self) + length (x # es) - nat cap)
                        (memory self @ stamped e (clock_used w) (x # es))"
  proof (cases "Suc (length (memory self)) \<le> nat cap")
    case True
    then show ?thesis by (simp add: x)
  next
    case False
    with Cons.prems have eq: "length (memory self) = nat cap" by auto
    then show ?thesis using Cons.prems(1) by (cases "memory self") (auto simp: x)
  qed
  finally show ?case using step by simp
qed

lemma drop_append_beyond: "length xs \<le> n \<Longrightarrow> drop n (xs @ ys) = drop (n - length xs) ys"
  by simp

text \<open>
  Claim C8. After more insertions than the cap (the configured \<^verbatim>\<open>MAX_MEMORY_SIZE\<close> is
  10; the statement is for every positive cap), into a memory that is within the cap, the
  memory holds exactly the \<open>cap\<close> most recently inserted entries, in the order of their
  insertion.
\<close>

theorem memory_keeps_most_recent:
  assumes "0 < cap" and "length (memory self) \<le> nat cap" and "cap < int (length es)"
  shows "memory (fst (add_memories cap e es (self, w)))
           = drop (length es - nat cap) (stamped e (clock_used w) es)
         \<and> length (memory (fst (add_memories cap e es (self, w)))) = nat cap"
proof -
  have le: "nat cap \<le> length es" using assms by linarith
  have "memory (fst (add_memories cap e es (self, w))) =
          drop (length (memory self) + length es - nat cap)
               (memory self @ stamped e (clock_used w) es)"
    using assms(1,2) by (rule add_memories_general)
  also have "\<dots> = drop (length (memory self) + length es - nat cap - length (memory self))
                        (stamped e (clock_used w) es)"
    using le by (intro drop_append_beyond) linarith
  also have "length (memory self) + length es - nat cap - length (memory self) = length es - nat cap"
    using le by linarith
  finally have eq: "memory (fst (add_memories cap e es (self, w)))
                      = drop (length es - nat cap) (stamped e (clock_used w) es)" .
  have "length (drop (length es - nat cap) (stamped e (clock_used w) es)) = nat cap"
    using le by simp
  with eq show ?thesis by simp
qed

text \<open>The configured cap of 10 and 15 insertions into a new agent: entries 5 to 14 remain.\<close>

theorem memory_keeps_most_recent_witness:
  "0 < MAX_MEMORY_SIZE \<and> length (memory (founder ''Al'')) \<le> nat MAX_MEMORY_SIZE
   \<and> MAX_MEMORY_SIZE < int (length fifteen)
   \<and> map mem_content (memory (fst (add_memories MAX_MEMORY_SIZE env0 fifteen (founder ''Al'', world0))))
       = [''5'', ''6'', ''7'', ''8'', ''9'', ''10'', ''11'', ''12'', ''13'', ''14'']"
proof -
  have h1: "0 < MAX_MEMORY_SIZE" by (simp add: MAX_MEMORY_SIZE_def)
  have h2: "length (memory (founder ''Al'')) \<le> nat MAX_MEMORY_SIZE"
    by (simp add: founder_def Agent_def MAX_MEMORY_SIZE_def)
  have h3: "MAX_MEMORY_SIZE < int (length fifteen)" by (simp add: MAX_MEMORY_SIZE_def fifteen_def)
  have ev: "map mem_content (drop (length fifteen - nat MAX_MEMORY_SIZE)
                                  (stamped env0 (clock_used world0) fifteen))
        = [''5'', ''6'', ''7'', ''8'', ''9'', ''10'', ''11'', ''12'', ''13'', ''14'']"
    by code_simp
  have eq: "memory (fst (add_memories MAX_MEMORY_SIZE env0 fifteen (founder ''Al'', world0)))
     = drop (length fifteen - nat MAX_MEMORY_SIZE) (stamped env0 (clock_used world0) fifteen)"
    using memory_keeps_most_recent [OF h1 h2 h3, of env0 world0] by (rule conjunct1)
  show ?thesis unfolding eq using h1 h2 h3 ev by (intro conjI)
qed

section \<open>The vote of one agent\<close>

lemma generate_rng_used [simp]: "rng_used (snd (generate e prompt mdl w)) = rng_used w"
  by (simp add: generate_def Let_def split: http_outcome.splits)

lemma generate_clock_used [simp]: "clock_used (snd (generate e prompt mdl w)) = clock_used w"
  by (simp add: generate_def Let_def split: http_outcome.splits)

lemma generate_total_requests [simp]:
  "total_requests (snd (generate e prompt mdl w)) = total_requests w + 1"
  by (simp add: generate_def Let_def split: http_outcome.splits)

lemma random_choice_member: "xs \<noteq> [] \<Longrightarrow> fst (random_choice e xs w) \<in> set xs"
  by (simp add: random_choice_def draw_def)

lemma random_choice_value: "fst (random_choice e xs w) = xs ! (rng e (rng_used w) mod length xs)"
  by (simp add: random_choice_def draw_def)

lemma add_memory_name [simp]: "name (fst (add_memory e t c r (self, w))) = name self"
  by (simp add: add_memory_def add_memory_cap_def Let_def split: prod.splits)

lemma add_memory_votes_cast [simp]: "votes_cast (fst (add_memory e t c r (self, w))) = votes_cast self"
  by (simp add: add_memory_def add_memory_cap_def Let_def split: prod.splits)

lemma add_memory_memory:
  "memory (fst (add_memory e t c r (self, w))) =
     (let appended = memory self @ [\<lparr>mem_type = t, mem_content = c, mem_round = r,
                                     mem_timestamp = clock e (clock_used w)\<rparr>]
      in if length appended > 10 then drop (length appended - 10) appended else appended)"
  by (simp add: add_memory_def add_memory_cap_def MAX_MEMORY_SIZE_def now_isoformat_def Let_def last_slice_pos)

lemma available_answers_only_self:
  "\<not> allow \<Longrightarrow> \<forall>k \<in> set (dict_keys answers). k = nm \<Longrightarrow> available_answers allow nm answers = []"
  by (auto simp: available_answers_def dict_keys_def filter_empty_conv)

lemma available_answers_keys:
  "set (dict_keys (available_answers allow nm answers)) \<subseteq> set (dict_keys answers)"
  by (auto simp: available_answers_def dict_keys_def)

text \<open>What one call of \<^verbatim>\<open>vote_on_answers\<close> can return and change.\<close>

lemma vote_on_answers_with_candidates:
  assumes "available_answers allow (name self) answers \<noteq> []"
  shows "\<exists>chosen why w2.
           chosen \<in> set (dict_keys (available_answers allow (name self) answers)) \<and>
           vote_on_answers e question answers round_num allow (self, w) =
             ((chosen, why),
              (fst (add_memory e ''vote'' (''Voted for '' @ chosen @ '': '' @ why) round_num (self, w2)))
                \<lparr>votes_cast := votes_cast self + 1\<rparr>,
              snd (add_memory e ''vote'' (''Voted for '' @ chosen @ '': '' @ why) round_num (self, w2)))"
proof -
  let ?available = "available_answers allow (name self) answers"
  let ?g = "generate e (voting_prompt self question ?available) (model self) w"
  let ?p = "parse_vote (fst ?g)"
  have ne: "dict_keys ?available \<noteq> []" using assms by (simp add: dict_keys_def)
  show ?thesis
  proof (cases "fst ?p \<in> set (dict_keys ?available)")
    case True
    have "vote_on_answers e question answers round_num allow (self, w) =
             ((fst ?p, snd ?p),
              (fst (add_memory e ''vote'' (''Voted for '' @ fst ?p @ '': '' @ snd ?p) round_num (self, snd ?g)))
                \<lparr>votes_cast := votes_cast self + 1\<rparr>,
              snd (add_memory e ''vote'' (''Voted for '' @ fst ?p @ '': '' @ snd ?p) round_num (self, snd ?g)))"
      using assms True by (simp add: vote_on_answers_def Let_def case_prod_beta)
    with True show ?thesis by blast
  next
    case False
    let ?rc = "random_choice e (dict_keys ?available) (snd ?g)"
    let ?why = "''Vote parsing failed, random selection made.''"
    have "vote_on_answers e question answers round_num allow (self, w) =
             ((fst ?rc, ?why),
              (fst (add_memory e ''vote'' (''Voted for '' @ fst ?rc @ '': '' @ ?why) round_num (self, snd ?rc)))
                \<lparr>votes_cast := votes_cast self + 1\<rparr>,
              snd (add_memory e ''vote'' (''Voted for '' @ fst ?rc @ '': '' @ ?why) round_num (self, snd ?rc)))"
      using assms False by (simp add: vote_on_answers_def Let_def case_prod_beta)
    moreover have "fst ?rc \<in> set (dict_keys ?available)" using ne by (rule random_choice_member)
    ultimately show ?thesis by blast
  qed
qed

lemma vote_on_answers_chosen:
  "fst (fst (vote_on_answers e question answers round_num allow (self, w)))
     \<in> set (dict_keys answers) \<union> {name self}"
proof (cases "available_answers allow (name self) answers = []")
  case True
  then show ?thesis by (simp add: vote_on_answers_def)
next
  case False
  from vote_on_answers_with_candidates[OF False, of e question round_num w]
  show ?thesis using available_answers_keys[of allow "name self" answers] by auto
qed

lemma vote_on_answers_name [simp]:
  "name (fst (snd (vote_on_answers e question answers round_num allow (self, w)))) = name self"
proof (cases "available_answers allow (name self) answers = []")
  case True
  then show ?thesis by (simp add: vote_on_answers_def)
next
  case False
  from vote_on_answers_with_candidates[OF False, of e question round_num w]
  show ?thesis by auto
qed

text \<open>
  Claim C6. With self-voting disallowed and no answer but the agent's own, the vote is
  the agent's own name with the fixed justification; the agent and the world, and with it
  the number of requests to the generator, are unchanged.
\<close>

theorem vote_without_candidates:
  assumes "\<not> allow" and "\<forall>k \<in> set (dict_keys answers). k = name self"
  shows "vote_on_answers e question answers round_num allow (self, w)
           = ((name self, ''No other options available.''), self, w)
         \<and> total_requests (snd (snd (vote_on_answers e question answers round_num allow (self, w))))
             = total_requests w"
proof -
  have "available_answers allow (name self) answers = []"
    using assms by (rule available_answers_only_self)
  then show ?thesis by (simp add: vote_on_answers_def)
qed

text \<open>One agent, one answer, its own.\<close>

theorem vote_without_candidates_witness:
  "dict_keys [(''Al'', ''Be kind.'')] = [name (founder ''Al'')]
   \<and> vote_on_answers env0 ''Why?'' [(''Al'', ''Be kind.'')] 1 False (founder ''Al'', world0)
       = ((''Al'', ''No other options available.''), founder ''Al'', world0)
   \<and> total_requests (snd (snd (vote_on_answers env0 ''Why?'' [(''Al'', ''Be kind.'')] 1 False
                                  (founder ''Al'', world0)))) = total_requests world0"
proof -
  have k: "dict_keys [(''Al'', ''Be kind.'')] = [name (founder ''Al'')]"
    by (simp add: dict_keys_def founder_def Agent_def)
  have h: "\<forall>k \<in> set (dict_keys [(''Al'', ''Be kind.'')]). k = name (founder ''Al'')"
    unfolding k by simp
  have n: "name (founder ''Al'') = ''Al''" by (simp add: founder_def Agent_def)
  have f: "\<not> False" by simp
  from vote_without_candidates [OF f h, of env0 "''Why?''" 1 world0]
  show ?thesis unfolding n using k n by simp
qed

text \<open>
  Claim C5. With a non-empty candidate set the chosen name is always one of the
  candidates: the parsed name if it is a candidate, and otherwise the candidate at the
  index the random generator draws, with the fixed justification of a failed parse.
\<close>

theorem vote_is_always_a_candidate:
  assumes "available_answers allow (name self) answers \<noteq> []"
  shows "let available = available_answers allow (name self) answers;
             candidates = dict_keys available;
             (response, w1) = generate e (voting_prompt self question available) (model self) w;
             (parsed_name, parsed_justification) = parse_vote response;
             ((chosen, why), self1, w2) = vote_on_answers e question answers round_num allow (self, w)
         in chosen \<in> set candidates \<and>
            (if parsed_name \<in> set candidates
             then chosen = parsed_name \<and> why = parsed_justification
             else chosen = candidates ! (rng e (rng_used w) mod length candidates)
                  \<and> why = ''Vote parsing failed, random selection made.'')"
proof -
  let ?available = "available_answers allow (name self) answers"
  have ne: "dict_keys ?available \<noteq> []" using assms by (simp add: dict_keys_def)
  obtain response w1 where g: "generate e (voting_prompt self question ?available) (model self) w = (response, w1)"
    by (cases "generate e (voting_prompt self question ?available) (model self) w") auto
  obtain pn pj where p: "parse_vote response = (pn, pj)" by (cases "parse_vote response") auto
  have r1: "rng_used w1 = rng_used w" using generate_rng_used[of e "voting_prompt self question ?available" "model self" w] g by simp
  show ?thesis
  proof (cases "pn \<in> set (dict_keys ?available)")
    case True
    then show ?thesis using assms g p
      by (simp add: vote_on_answers_def Let_def split: prod.splits)
  next
    case False
    obtain c w2 where rc: "random_choice e (dict_keys ?available) w1 = (c, w2)"
      by (cases "random_choice e (dict_keys ?available) w1") auto
    have "c \<in> set (dict_keys ?available)" using random_choice_member[OF ne, of e w1] rc by simp
    moreover have "c = dict_keys ?available ! (rng e (rng_used w) mod length (dict_keys ?available))"
      using random_choice_value[of e "dict_keys ?available" w1] rc r1 by simp
    ultimately show ?thesis using assms g p False rc
      by (simp add: vote_on_answers_def Let_def split: prod.splits)
  qed
qed

text \<open>
  The candidate at index 1 is chosen when the parse fails and the generator draws 1.
\<close>

theorem vote_is_always_a_candidate_witness:
  "available_answers False (name (founder ''Al'')) answers0 \<noteq> []
   \<and> fst (vote_on_answers env0 ''Why?'' answers0 1 False (founder ''Al'', world1))
       = (''Cy'', ''Vote parsing failed, random selection made.'')
   \<and> ''Cy'' \<in> set (dict_keys (available_answers False (name (founder ''Al'')) answers0))"
proof -
  have h: "available_answers False (name (founder ''Al'')) answers0 \<noteq> []" by code_simp
  have ev: "fst (vote_on_answers env0 ''Why?'' answers0 1 False (founder ''Al'', world1))
       = (''Cy'', ''Vote parsing failed, random selection made.'')" by code_simp
  have "fst (fst (vote_on_answers env0 ''Why?'' answers0 1 False (founder ''Al'', world1)))
          \<in> set (dict_keys (available_answers False (name (founder ''Al'')) answers0))"
    using vote_is_always_a_candidate[OF h, of env0 "''Why?''" world1 1]
    by (simp only: Let_def case_prod_beta)
  then have "''Cy'' \<in> set (dict_keys (available_answers False (name (founder ''Al'')) answers0))"
    unfolding ev by (simp only: fst_conv)
  with h ev show ?thesis by (intro conjI)
qed

text \<open>
  With candidates, the vote is counted in \<^verbatim>\<open>votes_cast\<close> and recorded in the memory
  (within the cap of 10).
\<close>

lemma vote_with_candidates_is_recorded:
  assumes "available_answers allow (name self) answers \<noteq> []"
  shows "votes_cast (fst (snd (vote_on_answers e question answers round_num allow (self, w))))
           = votes_cast self + 1
         \<and> (\<exists>entry. mem_type entry = ''vote'' \<and> mem_round entry = round_num \<and>
               memory (fst (snd (vote_on_answers e question answers round_num allow (self, w))))
                 = (if length (memory self) < 10 then memory self @ [entry]
                    else drop (length (memory self) - 9) (memory self @ [entry])))"
proof -
  from vote_on_answers_with_candidates[OF assms, of e question round_num w]
  obtain chosen why w2 where
    v: "vote_on_answers e question answers round_num allow (self, w) =
             ((chosen, why),
              (fst (add_memory e ''vote'' (''Voted for '' @ chosen @ '': '' @ why) round_num (self, w2)))
                \<lparr>votes_cast := votes_cast self + 1\<rparr>,
              snd (add_memory e ''vote'' (''Voted for '' @ chosen @ '': '' @ why) round_num (self, w2)))"
    by blast
  let ?entry = "\<lparr>mem_type = ''vote'', mem_content = ''Voted for '' @ chosen @ '': '' @ why,
                  mem_round = round_num, mem_timestamp = clock e (clock_used w2)\<rparr>"
  have "memory (fst (snd (vote_on_answers e question answers round_num allow (self, w))))
          = (if length (memory self) < 10 then memory self @ [?entry]
             else drop (length (memory self) - 9) (memory self @ [?entry]))"
    by (simp add: v add_memory_memory Let_def)
  moreover have "mem_type ?entry = ''vote'' \<and> mem_round ?entry = round_num" by simp
  ultimately have "\<exists>entry. mem_type entry = ''vote'' \<and> mem_round entry = round_num \<and>
               memory (fst (snd (vote_on_answers e question answers round_num allow (self, w))))
                 = (if length (memory self) < 10 then memory self @ [entry]
                    else drop (length (memory self) - 9) (memory self @ [entry]))" by blast
  moreover have "votes_cast (fst (snd (vote_on_answers e question answers round_num allow (self, w))))
           = votes_cast self + 1" by (simp add: v)
  ultimately show ?thesis by blast
qed

text \<open>
  Claim C7 fails on the path without candidates, which returns before the two updates: the
  vote of a lone agent is tallied by \<^verbatim>\<open>_single_choice_vote\<close>, but its
  \<^verbatim>\<open>votes_cast\<close> stays 0 and its memory stays empty.
\<close>

theorem self_fallback_vote_is_not_recorded:
  "fst (vote_on_answers env0 ''Why?'' [(''Al'', ''Be kind.'')] 1 False (founder ''Al'', world0))
     = (''Al'', ''No other options available.'')
   \<and> votes_cast (fst (snd (vote_on_answers env0 ''Why?'' [(''Al'', ''Be kind.'')] 1 False
                                (founder ''Al'', world0)))) = 0
   \<and> memory (fst (snd (vote_on_answers env0 ''Why?'' [(''Al'', ''Be kind.'')] 1 False
                                (founder ''Al'', world0)))) = []
   \<and> votes (fst (single_choice_vote env0 (VotingSystem ''single-choice'' False) [founder ''Al'']
                     ''Why?'' [(''Al'', ''Be kind.'')] 1 world0)) = [(''Al'', 1)]
   \<and> map votes_cast (fst (snd (snd (single_choice_vote env0 (VotingSystem ''single-choice'' False)
                     [founder ''Al''] ''Why?'' [(''Al'', ''Be kind.'')] 1 world0)))) = [0]"
  by code_simp

section \<open>The tally of a vote\<close>

lemma dict_keys_dict_set: "set (dict_keys (dict_set k v d)) = insert k (set (dict_keys d))"
  by (induction d) (auto simp: dict_keys_def)

lemma distinct_dict_set: "distinct (dict_keys d) \<Longrightarrow> distinct (dict_keys (dict_set k v d))"
proof (induction d)
  case Nil
  then show ?case by (simp add: dict_keys_def)
next
  case (Cons p d)
  then have "distinct (dict_keys (dict_set k v d))" by (simp add: dict_keys_def)
  moreover have "set (dict_keys (dict_set k v d)) = insert k (set (dict_keys d))"
    by (rule dict_keys_dict_set)
  ultimately show ?case using Cons.prems by (auto simp: dict_keys_def)
qed

lemma dict_keys_dict_add: "set (dict_keys (dict_add z k n d)) = insert k (set (dict_keys d))"
  by (simp add: dict_add_def dict_keys_dict_set)

lemma distinct_dict_add: "distinct (dict_keys d) \<Longrightarrow> distinct (dict_keys (dict_add z k n d))"
  by (simp add: dict_add_def distinct_dict_set)

lemma dict_set_not_Nil [simp]: "dict_set k v d \<noteq> []"
  by (cases d) auto

lemma dict_add_not_Nil [simp]: "dict_add z k n d \<noteq> []"
  by (simp add: dict_add_def)

lemma collect_votes_spec:
  assumes "collect_votes e question answers round_num allow population (vs, ds, js, w) = (population1, vs1, ds1, js1, w1)"
  shows "map name population1 = map name population \<and>
         (\<exists>new. ds1 = ds @ new \<and> length new = length population
                \<and> set (dict_keys vs1) = set (dict_keys vs) \<union> voted_for ` set new
                \<and> voted_for ` set new \<subseteq> set (dict_keys answers) \<union> name ` set population) \<and>
         (distinct (dict_keys vs) \<longrightarrow> distinct (dict_keys vs1)) \<and>
         (population \<noteq> [] \<longrightarrow> vs1 \<noteq> [])"
  using assms
proof (induction population arbitrary: vs ds js w population1 vs1 ds1 js1 w1)
  case Nil
  then show ?case by simp
next
  case (Cons agent rest)
  let ?v = "vote_on_answers e question answers round_num allow (agent, w)"
  let ?chosen = "fst (fst ?v)"
  let ?why = "snd (fst ?v)"
  let ?agent1 = "fst (snd ?v)"
  let ?w1 = "snd (snd ?v)"
  let ?vs = "dict_add 0 ?chosen 1 vs"
  let ?d = "\<lparr>voter = name agent, voted_for = ?chosen, justification = ?why\<rparr>"
  let ?ds = "ds @ [?d]"
  let ?js = "dict_append ?chosen (name agent @ '': '' @ ?why) js"
  obtain rest1 vs2 ds2 js2 w2 where
    rec: "collect_votes e question answers round_num allow rest (?vs, ?ds, ?js, ?w1) = (rest1, vs2, ds2, js2, w2)"
    by (metis prod_cases5)
  have unfold: "collect_votes e question answers round_num allow (agent # rest) (vs, ds, js, w)
                 = (?agent1 # rest1, vs2, ds2, js2, w2)"
    using rec by (simp add: Let_def case_prod_beta)
  with Cons.prems have eqs: "population1 = ?agent1 # rest1" "vs1 = vs2" "ds1 = ds2" by simp_all
  from Cons.IH[OF rec] obtain new where
    ih: "map name rest1 = map name rest" "ds2 = ?ds @ new" "length new = length rest"
        "set (dict_keys vs2) = set (dict_keys ?vs) \<union> voted_for ` set new"
        "voted_for ` set new \<subseteq> set (dict_keys answers) \<union> name ` set rest"
        "distinct (dict_keys ?vs) \<longrightarrow> distinct (dict_keys vs2)"
    by blast
  have chosen: "?chosen \<in> set (dict_keys answers) \<union> {name agent}"
    by (rule vote_on_answers_chosen)
  have names: "map name population1 = map name (agent # rest)"
    using eqs ih(1) by simp
  have keys: "set (dict_keys vs1) = set (dict_keys vs) \<union> voted_for ` set (?d # new)"
    using eqs ih(4) by (simp add: dict_keys_dict_add)
  have sub: "voted_for ` set (?d # new) \<subseteq> set (dict_keys answers) \<union> name ` set (agent # rest)"
    using chosen ih(5) by auto
  have dist: "distinct (dict_keys vs) \<longrightarrow> distinct (dict_keys vs1)"
    using eqs ih(6) by (simp add: distinct_dict_add)
  have nonempty: "vs1 \<noteq> []"
  proof -
    have "?chosen \<in> set (dict_keys vs1)" using keys by simp
    then show ?thesis by (auto simp: dict_keys_def)
  qed
  have "ds1 = ds @ (?d # new) \<and> length (?d # new) = length (agent # rest)"
    using eqs ih(2,3) by simp
  with names keys sub dist nonempty show ?case by blast
qed

lemma random_sample_subset: "set (fst (random_sample e xs k w)) \<subseteq> set xs"
proof (induction k arbitrary: xs w)
  case 0
  then show ?case by simp
next
  case (Suc k)
  show ?case
  proof (cases "xs = []")
    case True
    then show ?thesis by simp
  next
    case False
    let ?i = "rng e (rng_used w) mod length xs"
    let ?rest = "take ?i xs @ drop (Suc ?i) xs"
    have i: "?i < length xs" using False by simp
    have "set ?rest \<subseteq> set xs" by (auto dest: in_set_takeD in_set_dropD)
    moreover have "set (fst (random_sample e ?rest k w')) \<subseteq> set ?rest" for w' by (rule Suc.IH)
    ultimately have "set (fst (random_sample e ?rest k w')) \<subseteq> set xs" for w' by blast
    moreover have "xs ! ?i \<in> set xs" using i by simp
    ultimately show ?thesis using False
      by (simp add: Let_def case_prod_beta draw_def)
  qed
qed

lemma random_sample_length: "length (fst (random_sample e xs k w)) = min k (length xs)"
proof (induction k arbitrary: xs w)
  case 0
  then show ?case by simp
next
  case (Suc k)
  show ?case
  proof (cases "xs = []")
    case True
    then show ?thesis by simp
  next
    case False
    let ?i = "rng e (rng_used w) mod length xs"
    let ?rest = "take ?i xs @ drop (Suc ?i) xs"
    have i: "?i < length xs" using False by simp
    then have "length ?rest = length xs - 1" by auto
    moreover have "length (fst (random_sample e ?rest k w')) = min k (length ?rest)" for w' by (rule Suc.IH)
    moreover have "Suc (min k (length xs - 1)) = min (Suc k) (length xs)"
      using False by (cases xs) auto
    ultimately show ?thesis using False i
      by (simp add: Let_def case_prod_beta draw_def)
  qed
qed

lemma random_shuffle_subset: "set (fst (random_shuffle e xs w)) \<subseteq> set xs"
  by (simp add: random_shuffle_def random_sample_subset)

lemma random_shuffle_not_Nil: "xs \<noteq> [] \<Longrightarrow> fst (random_shuffle e xs w) \<noteq> []"
  using random_sample_length[of e xs "length xs" w] by (auto simp: random_shuffle_def)

lemma parse_ranking_line_subset:
  "set (fst (parse_ranking_line available acc raw)) \<subseteq> set (fst acc) \<union> set (dict_keys available)"
  by (cases acc) (auto simp: parse_ranking_line_def Let_def)

lemma parse_ranking_lines_subset:
  "set (fst (foldl (parse_ranking_line available) acc raws)) \<subseteq> set (fst acc) \<union> set (dict_keys available)"
proof (induction raws arbitrary: acc)
  case Nil
  then show ?case by simp
next
  case (Cons raw raws)
  have "set (fst (foldl (parse_ranking_line available) (parse_ranking_line available acc raw) raws))
          \<subseteq> set (fst (parse_ranking_line available acc raw)) \<union> set (dict_keys available)"
    by (rule Cons.IH)
  with parse_ranking_line_subset[of available acc raw] show ?case by auto
qed

lemma get_agent_rankings_spec:
  "fst (fst (get_agent_rankings e self agent question answers round_num w)) \<noteq> [] \<and>
   set (fst (fst (get_agent_rankings e self agent question answers round_num w)))
     \<subseteq> set (dict_keys answers) \<union> {name agent}"
proof (cases "available_answers (allow_self_voting self) (name agent) answers = []")
  case True
  then show ?thesis by (simp add: get_agent_rankings_def)
next
  case False
  let ?available = "available_answers (allow_self_voting self) (name agent) answers"
  let ?g = "generate e (ranking_prompt agent question ?available) (model agent) w"
  let ?parsed = "foldl (parse_ranking_line ?available) ([], []) (split (CHR 0x0A) (strip (fst ?g)))"
  have ne: "dict_keys ?available \<noteq> []" using False by (simp add: dict_keys_def)
  have sub: "set (dict_keys ?available) \<subseteq> set (dict_keys answers)" by (rule available_answers_keys)
  show ?thesis
  proof (cases "fst ?parsed = []")
    case True
    let ?sh = "random_shuffle e (dict_keys ?available) (snd ?g)"
    have "fst (fst (get_agent_rankings e self agent question answers round_num w)) = fst ?sh"
      using False True by (simp add: get_agent_rankings_def Let_def case_prod_beta)
    moreover have "fst ?sh \<noteq> []" using ne by (rule random_shuffle_not_Nil)
    moreover have "set (fst ?sh) \<subseteq> set (dict_keys ?available)" by (rule random_shuffle_subset)
    ultimately show ?thesis using sub by auto
  next
    case nonempty: False
    have "fst (fst (get_agent_rankings e self agent question answers round_num w)) = fst ?parsed"
      using False nonempty by (simp add: get_agent_rankings_def Let_def case_prod_beta)
    moreover have "set (fst ?parsed) \<subseteq> set (dict_keys ?available)"
      using parse_ranking_lines_subset[of ?available "([], [])"] by simp
    ultimately show ?thesis using sub nonempty by auto
  qed
qed

lemma collect_rankings_spec:
  assumes "collect_rankings e self question answers round_num population (rks, ds, w) = (rks1, ds1, w1)"
  shows "\<exists>new. ds1 = ds @ new \<and> rks1 = rks @ map rankings new \<and> length new = length population
               \<and> (\<forall>d \<in> set new. rankings d \<noteq> []
                      \<and> set (rankings d) \<subseteq> set (dict_keys answers) \<union> name ` set population)"
  using assms
proof (induction population arbitrary: rks ds w)
  case Nil
  then show ?case by simp
next
  case (Cons agent rest)
  let ?r = "get_agent_rankings e self agent question answers round_num w"
  let ?d = "\<lparr>ranking_voter = name agent, rankings = fst (fst ?r), ranking_justification = snd (fst ?r)\<rparr>"
  have "collect_rankings e self question answers round_num rest (rks @ [fst (fst ?r)], ds @ [?d], snd ?r)
          = (rks1, ds1, w1)"
    using Cons.prems by (simp add: Let_def case_prod_beta)
  from Cons.IH[OF this] obtain new where
    ih: "ds1 = (ds @ [?d]) @ new" "rks1 = (rks @ [fst (fst ?r)]) @ map rankings new" "length new = length rest"
        "\<forall>d \<in> set new. rankings d \<noteq> [] \<and> set (rankings d) \<subseteq> set (dict_keys answers) \<union> name ` set rest"
    by blast
  have d: "rankings ?d \<noteq> [] \<and> set (rankings ?d) \<subseteq> set (dict_keys answers) \<union> name ` set (agent # rest)"
    using get_agent_rankings_spec[of e self agent question answers round_num w] by auto
  have "ds1 = ds @ (?d # new) \<and> rks1 = rks @ map rankings (?d # new) \<and> length (?d # new) = length (agent # rest)"
    using ih by simp
  moreover have "\<forall>d \<in> set (?d # new). rankings d \<noteq> []
                      \<and> set (rankings d) \<subseteq> set (dict_keys answers) \<union> name ` set (agent # rest)"
    using d ih(4) by auto
  ultimately show ?case by blast
qed

lemma award_ranking_keys:
  "set (dict_keys (award_ranking c i ranking pts)) = set (dict_keys pts) \<union> set ranking"
  by (induction ranking arbitrary: i pts) (auto simp: dict_keys_dict_add)

lemma award_ranking_distinct:
  "distinct (dict_keys pts) \<Longrightarrow> distinct (dict_keys (award_ranking c i ranking pts))"
  by (induction ranking arbitrary: i pts) (auto simp: distinct_dict_add)

lemma award_all_keys:
  "set (dict_keys (foldl (\<lambda>pts ranking. award_ranking c 0 ranking pts) pts rks))
     = set (dict_keys pts) \<union> \<Union> (set ` set rks)"
  by (induction rks arbitrary: pts) (auto simp: award_ranking_keys)

lemma award_all_distinct:
  "distinct (dict_keys pts) \<Longrightarrow>
   distinct (dict_keys (foldl (\<lambda>pts ranking. award_ranking c 0 ranking pts) pts rks))"
  by (induction rks arbitrary: pts) (auto simp: award_ranking_distinct)

lemma award_points_keys: "set (dict_keys (award_points c rks)) = \<Union> (set ` set rks)"
  using award_all_keys[of c "[]" rks] by (simp add: award_points_def dict_keys_def)

lemma update_votes_received_names: "map name (update_votes_received tally p2) = map name p2"
  by (induction p2) (auto simp: update_votes_received_def split: option.splits)

lemma single_choice_vote_spec:
  assumes "single_choice_vote e vs population question answers round_num w = (res, vs1, population1, w1)"
  shows "set (tally_keys res) = chosen_names res \<and> distinct (tally_keys res)
         \<and> set (tally_keys res) \<subseteq> set (dict_keys answers) \<union> name ` set population
         \<and> map name population1 = map name population
         \<and> (population \<noteq> [] \<longrightarrow> tally_keys res \<noteq> [])"
proof -
  obtain p2 tally ds js w2 where
    c: "collect_votes e question answers round_num (allow_self_voting vs) population ([], [], [], w) = (p2, tally, ds, js, w2)"
    by (rule prod_cases5)
  have res: "res = SingleChoice round_num question tally ds js (length population)"
    and pop: "population1 = update_votes_received tally p2"
    using assms c by (auto simp: single_choice_vote_def Let_def)
  obtain new where
    h: "map name p2 = map name population" "ds = [] @ new"
       "set (dict_keys tally) = set (dict_keys ([] :: (string, nat) dict)) \<union> voted_for ` set new"
       "voted_for ` set new \<subseteq> set (dict_keys answers) \<union> name ` set population"
       "distinct (dict_keys ([] :: (string, nat) dict)) \<longrightarrow> distinct (dict_keys tally)"
       "population \<noteq> [] \<longrightarrow> tally \<noteq> []"
    using collect_votes_spec[OF c] by blast
  have k: "tally_keys res = dict_keys tally" and n: "chosen_names res = voted_for ` set ds"
    by (simp_all add: res tally_keys_def chosen_names_def)
  have 1: "set (tally_keys res) = chosen_names res" using h(2,3) by (simp add: k n dict_keys_def)
  have 2: "distinct (tally_keys res)" using h(5) by (simp add: k dict_keys_def)
  have 3: "set (tally_keys res) \<subseteq> set (dict_keys answers) \<union> name ` set population"
    using h(3,4) by (simp add: k dict_keys_def)
  have 4: "map name population1 = map name population"
    using h(1) by (simp add: pop update_votes_received_names)
  have 5: "population \<noteq> [] \<longrightarrow> tally_keys res \<noteq> []" using h(6) by (simp add: k dict_keys_def)
  from 1 2 3 4 5 show ?thesis by blast
qed
lemma ranked_choice_vote_spec:
  assumes "ranked_choice_vote e vs population question answers round_num w = (res, vs1, population1, w1)"
  shows "set (tally_keys res) = chosen_names res \<and> distinct (tally_keys res)
         \<and> set (tally_keys res) \<subseteq> set (dict_keys answers) \<union> name ` set population
         \<and> map name population1 = map name population
         \<and> (population \<noteq> [] \<longrightarrow> tally_keys res \<noteq> [])"
proof -
  obtain rks ds w2 where
    c: "collect_rankings e vs question answers round_num population ([], [], w) = (rks, ds, w2)"
    by (metis prod_cases3)
  let ?pts = "award_points (int (length answers)) rks"
  have res: "res = RankedChoice round_num question ?pts ds (length population)"
    and pop: "population1 = population"
    using assms c by (auto simp: ranked_choice_vote_def Let_def)
  from collect_rankings_spec[OF c] obtain new where
    h: "ds = [] @ new" "rks = [] @ map rankings new" "length new = length population"
       "\<forall>d \<in> set new. rankings d \<noteq> [] \<and> set (rankings d) \<subseteq> set (dict_keys answers) \<union> name ` set population"
    by blast
  have keys: "set (dict_keys ?pts) = \<Union> (set ` rankings ` set ds)"
    using h(1,2) by (simp add: award_points_keys image_image)
  have dist: "distinct (dict_keys ?pts)"
    using award_all_distinct[of "[]" "int (length answers)" rks] by (simp add: award_points_def dict_keys_def)
  have sub: "\<Union> (set ` rankings ` set ds) \<subseteq> set (dict_keys answers) \<union> name ` set population"
    using h(1,4) by auto
  have nonempty: "population \<noteq> [] \<longrightarrow> dict_keys ?pts \<noteq> []"
  proof
    assume "population \<noteq> []"
    with h(3) obtain d where d: "d \<in> set new" by (cases new) auto
    with h(4) obtain x where "x \<in> set (rankings d)" by (cases "rankings d") auto
    with d h(1) have "x \<in> set (dict_keys ?pts)" using keys by auto
    then show "dict_keys ?pts \<noteq> []" by auto
  qed
  show ?thesis using res pop keys dist sub nonempty
    by (simp add: tally_keys_def chosen_names_def)
qed

lemma conduct_vote_spec:
  assumes "conduct_vote e vs population question answers round_num w = Inr (res, vs1, population1, w1)"
  shows "set (tally_keys res) = chosen_names res \<and> distinct (tally_keys res)
         \<and> set (tally_keys res) \<subseteq> set (dict_keys answers) \<union> name ` set population
         \<and> map name population1 = map name population
         \<and> (population \<noteq> [] \<longrightarrow> tally_keys res \<noteq> [])"
proof (cases "voting_method vs = ''single-choice''")
  case True
  with assms have "single_choice_vote e vs population question answers round_num w = (res, vs1, population1, w1)"
    by (simp add: conduct_vote_def)
  then show ?thesis by (rule single_choice_vote_spec)
next
  case False
  with assms have "ranked_choice_vote e vs population question answers round_num w = (res, vs1, population1, w1)"
    by (simp add: conduct_vote_def split: if_splits)
  then show ?thesis by (rule ranked_choice_vote_spec)
qed

lemma available_answers_empty_self:
  assumes "available_answers allow nm answers = []" and "answers \<noteq> []"
  shows "nm \<in> set (dict_keys answers)"
proof -
  obtain k v rest where a: "answers = (k, v) # rest" using assms(2) by (cases answers) auto
  with assms(1) have "k = nm" by (auto simp: available_answers_def split: if_splits)
  with a show ?thesis by (simp add: dict_keys_def)
qed

lemma vote_on_answers_candidate:
  assumes "answers \<noteq> []"
  shows "fst (fst (vote_on_answers e question answers round_num allow (self, w))) \<in> set (dict_keys answers)"
proof (cases "available_answers allow (name self) answers = []")
  case True
  then have "name self \<in> set (dict_keys answers)" using assms by (rule available_answers_empty_self)
  with True show ?thesis by (simp add: vote_on_answers_def)
next
  case False
  from vote_on_answers_with_candidates[OF False, of e question round_num w]
  show ?thesis using available_answers_keys[of allow "name self" answers] by auto
qed

lemma get_agent_rankings_candidates:
  assumes "answers \<noteq> []"
  shows "set (fst (fst (get_agent_rankings e self agent question answers round_num w)))
           \<subseteq> set (dict_keys answers)"
proof (cases "available_answers (allow_self_voting self) (name agent) answers = []")
  case True
  then have "name agent \<in> set (dict_keys answers)" using assms by (rule available_answers_empty_self)
  with True show ?thesis by (simp add: get_agent_rankings_def)
next
  case False
  let ?available = "available_answers (allow_self_voting self) (name agent) answers"
  let ?g = "generate e (ranking_prompt agent question ?available) (model agent) w"
  let ?parsed = "foldl (parse_ranking_line ?available) ([], []) (split (CHR 0x0A) (strip (fst ?g)))"
  have sub: "set (dict_keys ?available) \<subseteq> set (dict_keys answers)" by (rule available_answers_keys)
  show ?thesis
  proof (cases "fst ?parsed = []")
    case True
    let ?sh = "random_shuffle e (dict_keys ?available) (snd ?g)"
    have "fst (fst (get_agent_rankings e self agent question answers round_num w)) = fst ?sh"
      using False True by (simp add: get_agent_rankings_def Let_def case_prod_beta)
    moreover have "set (fst ?sh) \<subseteq> set (dict_keys ?available)" by (rule random_shuffle_subset)
    ultimately show ?thesis using sub by auto
  next
    case nonempty: False
    have "fst (fst (get_agent_rankings e self agent question answers round_num w)) = fst ?parsed"
      using False nonempty by (simp add: get_agent_rankings_def Let_def case_prod_beta)
    moreover have "set (fst ?parsed) \<subseteq> set (dict_keys ?available)"
      using parse_ranking_lines_subset[of ?available "([], [])"] by simp
    ultimately show ?thesis using sub by auto
  qed
qed

lemma collect_votes_candidates:
  assumes "answers \<noteq> []"
  shows "set (dict_keys (fst (snd (collect_votes e question answers round_num allow population (vs, ds, js, w)))))
           \<subseteq> set (dict_keys vs) \<union> set (dict_keys answers)"
proof (induction population arbitrary: vs ds js w)
  case Nil
  then show ?case by simp
next
  case (Cons agent rest)
  let ?v = "vote_on_answers e question answers round_num allow (agent, w)"
  let ?vs = "dict_add 0 (fst (fst ?v)) 1 vs"
  let ?ds = "ds @ [\<lparr>voter = name agent, voted_for = fst (fst ?v), justification = snd (fst ?v)\<rparr>]"
  let ?js = "dict_append (fst (fst ?v)) (name agent @ '': '' @ snd (fst ?v)) js"
  have step: "fst (snd (collect_votes e question answers round_num allow (agent # rest) (vs, ds, js, w)))
        = fst (snd (collect_votes e question answers round_num allow rest (?vs, ?ds, ?js, snd (snd ?v))))"
    by (simp add: Let_def case_prod_beta)
  have "fst (fst ?v) \<in> set (dict_keys answers)" using assms by (rule vote_on_answers_candidate)
  then have "set (dict_keys ?vs) \<subseteq> set (dict_keys vs) \<union> set (dict_keys answers)"
    by (simp add: dict_keys_dict_add)
  with Cons.IH[of ?vs ?ds ?js "snd (snd ?v)"] show ?case unfolding step by blast
qed

lemma collect_rankings_candidates:
  assumes "answers \<noteq> []"
  shows "\<Union> (set ` set (fst (collect_rankings e self question answers round_num population (rks, ds, w))))
           \<subseteq> \<Union> (set ` set rks) \<union> set (dict_keys answers)"
proof (induction population arbitrary: rks ds w)
  case Nil
  then show ?case by simp
next
  case (Cons agent rest)
  let ?r = "get_agent_rankings e self agent question answers round_num w"
  let ?d = "\<lparr>ranking_voter = name agent, rankings = fst (fst ?r), ranking_justification = snd (fst ?r)\<rparr>"
  have step: "collect_rankings e self question answers round_num (agent # rest) (rks, ds, w)
          = collect_rankings e self question answers round_num rest (rks @ [fst (fst ?r)], ds @ [?d], snd ?r)"
    by (simp add: Let_def case_prod_beta)
  have "set (fst (fst ?r)) \<subseteq> set (dict_keys answers)" using assms by (rule get_agent_rankings_candidates)
  then have "\<Union> (set ` set (rks @ [fst (fst ?r)])) \<subseteq> \<Union> (set ` set rks) \<union> set (dict_keys answers)"
    by auto
  with Cons.IH[of "rks @ [fst (fst ?r)]" "ds @ [?d]" "snd ?r"] show ?case unfolding step by blast
qed

text \<open>
  With a non-empty answers map, no key of a tally is outside the candidates: an agent
  falls back to its own name only when every answer is its own.
\<close>

lemma tally_keys_are_candidates:
  assumes "conduct_vote e vs population question answers round_num w = Inr (res, vs1, population1, w1)"
    and "answers \<noteq> []"
  shows "set (tally_keys res) \<subseteq> set (dict_keys answers)"
proof (cases "voting_method vs = ''single-choice''")
  case True
  with assms(1) have "res = fst (single_choice_vote e vs population question answers round_num w)"
    by (simp add: conduct_vote_def)
  then have "tally_keys res = dict_keys (fst (snd (collect_votes e question answers round_num
                 (allow_self_voting vs) population ([], [], [], w))))"
    by (simp add: single_choice_vote_def Let_def case_prod_beta tally_keys_def)
  then show ?thesis
    using collect_votes_candidates[OF assms(2), of e question round_num "allow_self_voting vs" population "[]" "[]" "[]" w]
    by (simp add: dict_keys_def)
next
  case False
  with assms(1) have "res = fst (ranked_choice_vote e vs population question answers round_num w)"
    by (simp add: conduct_vote_def split: if_splits)
  then have "tally_keys res = dict_keys (award_points (int (length answers))
                 (fst (collect_rankings e vs question answers round_num population ([], [], w))))"
    by (simp add: ranked_choice_vote_def Let_def case_prod_beta tally_keys_def)
  then show ?thesis
    using collect_rankings_candidates[OF assms(2), of e vs question round_num population "[]" "[]" w]
    by (simp add: award_points_keys)
qed

text \<open>
  A round of \<^verbatim>\<open>Al\<close>, \<^verbatim>\<open>Bo\<close> and \<^verbatim>\<open>Cy\<close> in which \<^verbatim>\<open>Al\<close> votes for \<^verbatim>\<open>Bo\<close> and the
  other two for \<^verbatim>\<open>Al\<close>.
\<close>

lemma example_round_summary:
  "round_summary (run_round env0 simulation3 1 ''Why?'' world0)
     = Some (''Bo'', [''Bo'', ''Al''], [''Al'', ''Cy'', ''Al Next''])"
  by code_simp

text \<open>
  Claim C1 fails on the code: a tally has an entry only for a name that was voted for (or
  ranked). With the candidates \<^verbatim>\<open>Al\<close>, \<^verbatim>\<open>Bo\<close> and \<^verbatim>\<open>Cy\<close> and the votes
  \<^verbatim>\<open>Bo\<close>, \<^verbatim>\<open>Al\<close>, \<^verbatim>\<open>Al\<close> the tally is \<^verbatim>\<open>{Bo: 1, Al: 2}\<close>, without an entry of 0
  for \<^verbatim>\<open>Cy\<close>; \<^verbatim>\<open>get_loser\<close> then names \<^verbatim>\<open>Bo\<close>, and the round eliminates \<^verbatim>\<open>Bo\<close>
  while \<^verbatim>\<open>Cy\<close>, who has the fewest votes, stays. The points of a ranked vote drop
  \<^verbatim>\<open>Cy\<close> in the same way.
\<close>

theorem tally_omits_candidates_without_votes:
  "votes (fst (projr (conduct_vote env0 (VotingSystem ''single-choice'' False) population0
                        ''Why?'' answers0 1 world0))) = [(''Bo'', 1), (''Al'', 2)]
   \<and> map voted_for (vote_details (fst (projr (conduct_vote env0 (VotingSystem ''single-choice'' False)
                        population0 ''Why?'' answers0 1 world0)))) = [''Bo'', ''Al'', ''Al'']
   \<and> dict_keys answers0 = [''Al'', ''Bo'', ''Cy'']
   \<and> set (tally_keys (fst (projr (conduct_vote env0 (VotingSystem ''single-choice'' False) population0
                        ''Why?'' answers0 1 world0)))) \<noteq> set (dict_keys answers0)
   \<and> get_loser (fst (projr (conduct_vote env0 (VotingSystem ''single-choice'' False) population0
                        ''Why?'' answers0 1 world0))) = ''Bo''
   \<and> points (fst (projr (conduct_vote env1 (VotingSystem ''ranked-choice'' False) population0
                        ''Why?'' answers0 1 world0))) = [(''Bo'', 6), (''Al'', 3)]
   \<and> set (tally_keys (fst (projr (conduct_vote env1 (VotingSystem ''ranked-choice'' False) population0
                        ''Why?'' answers0 1 world0)))) \<noteq> set (dict_keys answers0)
   \<and> round_summary (run_round env0 simulation3 1 ''Why?'' world0)
       = Some (''Bo'', [''Bo'', ''Al''], [''Al'', ''Cy'', ''Al Next''])"
proof -
  let ?single = "fst (projr (conduct_vote env0 (VotingSystem ''single-choice'' False) population0
                        ''Why?'' answers0 1 world0))"
  let ?ranked = "fst (projr (conduct_vote env1 (VotingSystem ''ranked-choice'' False) population0
                        ''Why?'' answers0 1 world0))"
  have v: "votes ?single = [(''Bo'', 1), (''Al'', 2)]" by code_simp
  have d: "map voted_for (vote_details ?single) = [''Bo'', ''Al'', ''Al'']" by code_simp
  have k: "dict_keys answers0 = [''Al'', ''Bo'', ''Cy'']" by code_simp
  have a: "tally_keys ?single = [''Bo'', ''Al'']" by code_simp
  have b: "tally_keys ?ranked = [''Bo'', ''Al'']" by code_simp
  have l: "get_loser ?single = ''Bo''" by code_simp
  have p: "points ?ranked = [(''Bo'', 6), (''Al'', 3)]" by code_simp
  have d1: "''Cy'' \<notin> set [''Bo'', ''Al'']" by simp
  have d2: "''Cy'' \<in> set [''Al'', ''Bo'', ''Cy'']" by simp
  have ne: "set [''Bo'', ''Al''] \<noteq> set [''Al'', ''Bo'', ''Cy'']" using d1 d2 by metis
  have n1: "set (tally_keys ?single) \<noteq> set (dict_keys answers0)" unfolding a k by (rule ne)
  have n2: "set (tally_keys ?ranked) \<noteq> set (dict_keys answers0)" unfolding b k by (rule ne)
  from v d k n1 l p n2 example_round_summary show ?thesis by (intro conjI)
qed

section \<open>The points of a ranked vote\<close>

lemma dict_get_dict_set: "dict_get (dict_set k v d) x = (if x = k then Some v else dict_get d x)"
  by (induction d) (auto simp: dict_get_def)

lemma held_dict_add: "held (dict_add 0 k n d) x = held d x + (if x = k then n else 0)"
  by (simp add: held_def dict_add_def dict_get_dict_set)

lemma sum_list_upt_Suc_shift:
  "(\<Sum>idx\<leftarrow>[0 ..< Suc n]. f idx) = f 0 + (\<Sum>idx\<leftarrow>[0 ..< n]. f (Suc idx))" for f :: "nat \<Rightarrow> int"
proof -
  have "[0 ..< Suc n] = 0 # map Suc [0 ..< n]" by (simp add: upt_conv_Cons map_Suc_upt del: upt_Suc)
  then show ?thesis by (simp add: comp_def del: upt_Suc)
qed

lemma held_award_ranking:
  "held (award_ranking c i ranking pts) x
     = held pts x + (\<Sum>idx\<leftarrow>[0 ..< length ranking]. if ranking ! idx = x then c - int (i + idx) else 0)"
proof (induction ranking arbitrary: i pts)
  case Nil
  then show ?case by simp
next
  case (Cons y ys)
  have "held (award_ranking c i (y # ys) pts) x
          = held (dict_add 0 y (c - int i) pts) x
            + (\<Sum>idx\<leftarrow>[0 ..< length ys]. if ys ! idx = x then c - int (i + Suc idx) else 0)"
    using Cons.IH[of "Suc i" "dict_add 0 y (c - int i) pts"] by (simp cong: if_cong)
  also have "\<dots> = held pts x + ((if y = x then c - int i else 0)
            + (\<Sum>idx\<leftarrow>[0 ..< length ys]. if (y # ys) ! Suc idx = x then c - int (i + Suc idx) else 0))"
    by (auto simp: held_dict_add)
  also have "(if y = x then c - int i else 0)
            + (\<Sum>idx\<leftarrow>[0 ..< length ys]. if (y # ys) ! Suc idx = x then c - int (i + Suc idx) else 0)
           = (\<Sum>idx\<leftarrow>[0 ..< Suc (length ys)]. if (y # ys) ! idx = x then c - int (i + idx) else 0)"
    by (subst sum_list_upt_Suc_shift) simp
  finally show ?case by simp
qed

lemma held_award_all:
  "held (foldl (\<lambda>pts ranking. award_ranking c 0 ranking pts) pts rks) x
     = held pts x + (\<Sum>r\<leftarrow>rks. ranking_points c r x)"
  by (induction rks arbitrary: pts) (simp_all add: held_award_ranking ranking_points_def)

lemma dict_get_None_iff: "dict_get d x = None \<longleftrightarrow> x \<notin> set (dict_keys d)"
  by (simp add: dict_get_def dict_keys_def map_of_eq_None_iff)

lemma award_points_value:
  "dict_get (award_points c rks) x
     = (if x \<in> \<Union> (set ` set rks) then Some (\<Sum>r\<leftarrow>rks. ranking_points c r x) else None)"
proof (cases "x \<in> \<Union> (set ` set rks)")
  case False
  then have "x \<notin> set (dict_keys (award_points c rks))" by (simp add: award_points_keys)
  then have "dict_get (award_points c rks) x = None" by (simp add: dict_get_None_iff)
  with False show ?thesis by simp
next
  case True
  then have "x \<in> set (dict_keys (award_points c rks))" by (simp add: award_points_keys)
  then obtain v where v: "dict_get (award_points c rks) x = Some v"
    using dict_get_None_iff[of "award_points c rks" x] by (cases "dict_get (award_points c rks) x") auto
  have "held (award_points c rks) x = held [] x + (\<Sum>r\<leftarrow>rks. ranking_points c r x)"
    unfolding award_points_def by (rule held_award_all)
  then have "v = (\<Sum>r\<leftarrow>rks. ranking_points c r x)" using v by (simp add: held_def dict_get_def)
  with v True show ?thesis by simp
qed

lemma sum_values_dict_set:
  "sum_list (map snd (dict_set k v d)) = sum_list (map snd d) - held d k + v"
  by (induction d) (auto simp: held_def dict_get_def)

lemma sum_values_dict_add:
  "sum_list (map snd (dict_add 0 k n d)) = sum_list (map snd d) + n" for n :: int
  by (simp add: dict_add_def sum_values_dict_set held_def)

lemma sum_values_award_ranking:
  "sum_list (map snd (award_ranking c i ranking pts))
     = sum_list (map snd pts) + (\<Sum>idx\<leftarrow>[0 ..< length ranking]. c - int (i + idx))"
proof (induction ranking arbitrary: i pts)
  case Nil
  then show ?case by simp
next
  case (Cons y ys)
  have "sum_list (map snd (award_ranking c i (y # ys) pts))
          = sum_list (map snd pts) + ((c - int i) + (\<Sum>idx\<leftarrow>[0 ..< length ys]. c - int (i + Suc idx)))"
    using Cons.IH[of "Suc i" "dict_add 0 y (c - int i) pts"] by (simp add: sum_values_dict_add)
  also have "(c - int i) + (\<Sum>idx\<leftarrow>[0 ..< length ys]. c - int (i + Suc idx))
               = (\<Sum>idx\<leftarrow>[0 ..< Suc (length ys)]. c - int (i + idx))"
    by (subst sum_list_upt_Suc_shift) simp
  finally show ?case by simp
qed

lemma twice_descending_sum:
  "2 * (\<Sum>idx\<leftarrow>[0 ..< n]. c - int idx) = 2 * int n * c - int n * (int n - 1)"
  by (induction n) (simp_all add: algebra_simps)

lemma twice_ascending_sum: "2 * (\<Sum>k = 1..n. int k) = int n * (int n + 1)"
  by (induction n) (simp_all add: algebra_simps)

lemma collect_rankings_voters:
  "fst (collect_rankings e self question answers round_num population (rks, ds, w))
     = rks @ rankings_of_voters e self question answers round_num population w
   \<and> map rankings (fst (snd (collect_rankings e self question answers round_num population (rks, ds, w))))
     = map rankings ds @ rankings_of_voters e self question answers round_num population w
   \<and> map ranking_voter (fst (snd (collect_rankings e self question answers round_num population (rks, ds, w))))
     = map ranking_voter ds @ map name population"
proof (induction population arbitrary: rks ds w)
  case Nil
  then show ?case by simp
next
  case (Cons agent rest)
  let ?r = "get_agent_rankings e self agent question answers round_num w"
  let ?d = "\<lparr>ranking_voter = name agent, rankings = fst (fst ?r), ranking_justification = snd (fst ?r)\<rparr>"
  have step: "collect_rankings e self question answers round_num (agent # rest) (rks, ds, w)
          = collect_rankings e self question answers round_num rest (rks @ [fst (fst ?r)], ds @ [?d], snd ?r)"
    by (simp add: Let_def case_prod_beta)
  show ?case unfolding step using Cons.IH[of "rks @ [fst (fst ?r)]" "ds @ [?d]" "snd ?r"] by simp
qed

lemma ranked_choice_vote_result:
  "fst (ranked_choice_vote e vs population question answers round_num w)
     = RankedChoice round_num question
         (award_points (int (length answers))
            (fst (collect_rankings e vs question answers round_num population ([], [], w))))
         (fst (snd (collect_rankings e vs question answers round_num population ([], [], w))))
         (length population)"
  by (simp add: ranked_choice_vote_def Let_def case_prod_beta)

lemma sum_values_award_all:
  "sum_list (map snd (foldl (\<lambda>pts ranking. award_ranking c 0 ranking pts) pts rks))
     = sum_list (map snd pts) + (\<Sum>r\<leftarrow>rks. \<Sum>idx\<leftarrow>[0 ..< length r]. c - int idx)"
  by (induction rks arbitrary: pts) (simp_all add: sum_values_award_ranking)

lemma descending_sum_full:
  "(\<Sum>idx\<leftarrow>[0 ..< n]. int n - int idx) = (\<Sum>k = 1..n. int k)"
proof -
  have "2 * (\<Sum>idx\<leftarrow>[0 ..< n]. int n - int idx) = 2 * (\<Sum>k = 1..n. int k)"
    by (simp only: twice_descending_sum twice_ascending_sum) (simp add: algebra_simps)
  then show ?thesis by simp
qed

text \<open>
  Claim C4. In a ranked-choice vote the recorded rankings are those of the voters, one for
  each agent of the population in order. With \<open>c\<close> the number of answers, the points of
  a name are the sum, over the voters' rankings and the positions \<open>idx\<close> at which a
  ranking has the name, of \<open>c - idx\<close> (a name in no ranking has no points); the points
  of all names together are the sum of what each ranking gives, and a voter's ranking of
  \<open>c\<close> names gives \<open>c + (c - 1) + ... + 1\<close>.
\<close>

theorem ranked_points_are_positional:
  "let res = fst (ranked_choice_vote e vs population question answers round_num w);
       c = int (length answers);
       rks = rankings_of_voters e vs question answers round_num population w
   in map rankings (ranking_details res) = rks
      \<and> map ranking_voter (ranking_details res) = map name population
      \<and> (\<forall>x. dict_get (points res) x
             = (if x \<in> \<Union> (set ` set rks) then Some (\<Sum>r\<leftarrow>rks. ranking_points c r x) else None))
      \<and> sum_list (map snd (points res)) = (\<Sum>r\<leftarrow>rks. \<Sum>idx\<leftarrow>[0 ..< length r]. c - int idx)
      \<and> (\<forall>r \<in> set rks. length r = length answers \<longrightarrow>
             (\<Sum>idx\<leftarrow>[0 ..< length r]. c - int idx) = (\<Sum>k = 1..length answers. int k))"
proof -
  let ?res = "fst (ranked_choice_vote e vs population question answers round_num w)"
  let ?c = "int (length answers)"
  let ?rks = "rankings_of_voters e vs question answers round_num population w"
  let ?cr = "collect_rankings e vs question answers round_num population ([], [], w)"
  note cv = collect_rankings_voters[of e vs question answers round_num population "[]" "[]" w]
  have rk: "fst ?cr = ?rks" using cv by simp
  have 1: "map rankings (ranking_details ?res) = ?rks"
    using cv by (simp add: ranked_choice_vote_result)
  have 2: "map ranking_voter (ranking_details ?res) = map name population"
    using cv by (simp add: ranked_choice_vote_result)
  have pts: "points ?res = award_points ?c ?rks"
    by (simp add: ranked_choice_vote_result rk)
  have 3: "\<forall>x. dict_get (points ?res) x
             = (if x \<in> \<Union> (set ` set ?rks) then Some (\<Sum>r\<leftarrow>?rks. ranking_points ?c r x) else None)"
    unfolding pts by (intro allI) (rule award_points_value)
  have 4: "sum_list (map snd (points ?res)) = (\<Sum>r\<leftarrow>?rks. \<Sum>idx\<leftarrow>[0 ..< length r]. ?c - int idx)"
    unfolding pts award_points_def using sum_values_award_all[of ?c "[]" ?rks] by simp
  have 5: "\<forall>r \<in> set ?rks. length r = length answers \<longrightarrow>
             (\<Sum>idx\<leftarrow>[0 ..< length r]. ?c - int idx) = (\<Sum>k = 1..length answers. int k)"
    using descending_sum_full[of "length answers"] by auto
  from 1 2 3 4 5 show ?thesis unfolding Let_def by (intro conjI)
qed

text \<open>
  Three voters who may vote for themselves and rank all three names: \<^verbatim>\<open>Bo\<close>, second
  in each ranking, has 2 + 2 + 2 points, and each ranking gives 3 + 2 + 1.
\<close>

theorem ranked_points_are_positional_witness:
  "rankings_of_voters env2 (VotingSystem ''ranked-choice'' True) ''Why?'' answers0 1 population0 world0
     = [[''Al'', ''Bo'', ''Cy''], [''Al'', ''Bo'', ''Cy''], [''Al'', ''Bo'', ''Cy'']]
   \<and> map rankings (ranking_details (fst (ranked_choice_vote env2 (VotingSystem ''ranked-choice'' True)
                                         population0 ''Why?'' answers0 1 world0)))
     = [[''Al'', ''Bo'', ''Cy''], [''Al'', ''Bo'', ''Cy''], [''Al'', ''Bo'', ''Cy'']]
   \<and> dict_get (points (fst (ranked_choice_vote env2 (VotingSystem ''ranked-choice'' True)
                               population0 ''Why?'' answers0 1 world0))) ''Bo'' = Some (2 + 2 + 2)
   \<and> sum_list (map snd (points (fst (ranked_choice_vote env2 (VotingSystem ''ranked-choice'' True)
                               population0 ''Why?'' answers0 1 world0)))) = 6 + 6 + 6
   \<and> length [''Al'', ''Bo'', ''Cy''] = length answers0
   \<and> (\<Sum>idx\<leftarrow>[0 ..< length [''Al'', ''Bo'', ''Cy'']]. int (length answers0) - int idx) = 3 + 2 + 1"
proof -
  let ?vs = "VotingSystem ''ranked-choice'' True"
  let ?res = "fst (ranked_choice_vote env2 ?vs population0 ''Why?'' answers0 1 world0)"
  let ?full = "[''Al'', ''Bo'', ''Cy'']"
  note t = ranked_points_are_positional[of env2 ?vs population0 "''Why?''" answers0 1 world0,
             unfolded Let_def]
  have rk: "rankings_of_voters env2 ?vs ''Why?'' answers0 1 population0 world0 = [?full, ?full, ?full]"
    by code_simp
  have len: "length ?full = length answers0" by code_simp
  have 1: "map rankings (ranking_details ?res) = [?full, ?full, ?full]"
    using t unfolding rk by (rule conjunct1)
  have a: "dict_get (points ?res) ''Bo''
             = (if ''Bo'' \<in> \<Union> (set ` set [?full, ?full, ?full])
                then Some (\<Sum>r\<leftarrow>[?full, ?full, ?full]. ranking_points (int (length answers0)) r ''Bo'')
                else None)"
    using t unfolding rk by blast
  have a1: "''Bo'' \<in> \<Union> (set ` set [?full, ?full, ?full])" by simp
  have a2: "(\<Sum>r\<leftarrow>[?full, ?full, ?full]. ranking_points (int (length answers0)) r ''Bo'') = 2 + 2 + 2"
    by code_simp
  have 3: "dict_get (points ?res) ''Bo'' = Some (2 + 2 + 2)"
    unfolding a using a1 a2 by (simp only: if_True)
  have b: "sum_list (map snd (points ?res))
             = (\<Sum>r\<leftarrow>[?full, ?full, ?full]. \<Sum>idx\<leftarrow>[0 ..< length r]. int (length answers0) - int idx)"
    using t unfolding rk by blast
  have b1: "(\<Sum>r\<leftarrow>[?full, ?full, ?full]. \<Sum>idx\<leftarrow>[0 ..< length r]. int (length answers0) - int idx) = 6 + 6 + 6"
    by code_simp
  have 4: "sum_list (map snd (points ?res)) = 6 + 6 + 6" unfolding b b1 by (rule refl)
  have mem: "?full \<in> set [?full, ?full, ?full]" by simp
  have c: "(\<Sum>idx\<leftarrow>[0 ..< length ?full]. int (length answers0) - int idx) = (\<Sum>k = 1..length answers0. int k)"
    using t mem len unfolding rk by blast
  have c1: "(\<Sum>k = 1..length answers0. int k) = 3 + 2 + 1" by code_simp
  have 5: "(\<Sum>idx\<leftarrow>[0 ..< length ?full]. int (length answers0) - int idx) = 3 + 2 + 1"
    unfolding c c1 by (rule refl)
  from rk 1 3 4 len 5 show ?thesis by (intro conjI)
qed

section \<open>Elimination\<close>

lemma pop_first_named_found:
  "loser_name \<in> name ` set population \<Longrightarrow>
   \<exists>pre gone post. population = pre @ gone # post \<and> loser_name \<notin> name ` set pre
      \<and> name gone = loser_name
      \<and> pop_first_named loser_name population = (pre @ post, Some gone)"
proof (induction population)
  case Nil
  then show ?case by simp
next
  case (Cons a population)
  show ?case
  proof (cases "name a = loser_name")
    case True
    then have "a # population = [] @ a # population \<and> loser_name \<notin> name ` set []
      \<and> name a = loser_name
      \<and> pop_first_named loser_name (a # population) = ([] @ population, Some a)" by simp
    then show ?thesis by blast
  next
    case False
    with Cons.prems have "loser_name \<in> name ` set population" by auto
    from Cons.IH[OF this] obtain pre gone post where
      h: "population = pre @ gone # post" "loser_name \<notin> name ` set pre" "name gone = loser_name"
         "pop_first_named loser_name population = (pre @ post, Some gone)" by blast
    with False have "a # population = (a # pre) @ gone # post
      \<and> loser_name \<notin> name ` set (a # pre) \<and> name gone = loser_name
      \<and> pop_first_named loser_name (a # population) = ((a # pre) @ post, Some gone)" by auto
    then show ?thesis by blast
  qed
qed

lemma pop_first_named_absent:
  "loser_name \<notin> name ` set population \<Longrightarrow> pop_first_named loser_name population = (population, None)"
  by (induction population) auto

text \<open>
  Claim C9. If some agent of the population has the loser's name, \<^verbatim>\<open>eliminate_agent\<close>
  returns the first such agent and the population without it, the others unchanged and in
  order; if none has, it returns \<^verbatim>\<open>None\<close> and leaves the population (and the manager)
  as they were. It is a total function: no case raises.
\<close>

theorem eliminate_agent_removes_first_match:
  "(loser_name \<in> name ` set population \<longrightarrow>
      (\<exists>pre gone post. population = pre @ gone # post \<and> loser_name \<notin> name ` set pre
         \<and> name gone = loser_name
         \<and> fst (eliminate_agent em population loser_name round_num reason) = Some gone
         \<and> fst (snd (eliminate_agent em population loser_name round_num reason)) = pre @ post))
   \<and> (loser_name \<notin> name ` set population \<longrightarrow>
        eliminate_agent em population loser_name round_num reason = (None, population, em))"
proof (intro conjI impI)
  assume "loser_name \<in> name ` set population"
  from pop_first_named_found[OF this] obtain pre gone post where
    h: "population = pre @ gone # post" "loser_name \<notin> name ` set pre" "name gone = loser_name"
       "pop_first_named loser_name population = (pre @ post, Some gone)" by blast
  have "fst (eliminate_agent em population loser_name round_num reason) = Some gone
        \<and> fst (snd (eliminate_agent em population loser_name round_num reason)) = pre @ post"
    by (simp add: eliminate_agent_def h(4))
  with h show "\<exists>pre gone post. population = pre @ gone # post \<and> loser_name \<notin> name ` set pre
         \<and> name gone = loser_name
         \<and> fst (eliminate_agent em population loser_name round_num reason) = Some gone
         \<and> fst (snd (eliminate_agent em population loser_name round_num reason)) = pre @ post"
    by blast
next
  assume "loser_name \<notin> name ` set population"
  then show "eliminate_agent em population loser_name round_num reason = (None, population, em)"
    by (simp add: eliminate_agent_def pop_first_named_absent)
qed

text \<open>A population of three: \<^verbatim>\<open>Bo\<close> is found and removed, \<^verbatim>\<open>Zed\<close> is not there.\<close>

theorem eliminate_agent_removes_first_match_witness:
  "''Bo'' \<in> name ` set population0
   \<and> (\<exists>pre gone post. population0 = pre @ gone # post \<and> ''Bo'' \<notin> name ` set pre
         \<and> name gone = ''Bo''
         \<and> fst (eliminate_agent manager0 population0 ''Bo'' 1 ''Received fewest votes'') = Some gone
         \<and> fst (snd (eliminate_agent manager0 population0 ''Bo'' 1 ''Received fewest votes'')) = pre @ post)
   \<and> ''Zed'' \<notin> name ` set population0
   \<and> eliminate_agent manager0 population0 ''Zed'' 1 ''Received fewest votes'' = (None, population0, manager0)"
proof -
  have names: "map name population0 = [''Al'', ''Bo'', ''Cy'']" by code_simp
  have n: "name ` set population0 = set (map name population0)" by simp
  have h1: "''Bo'' \<in> name ` set population0" unfolding n names by simp
  have h2: "''Zed'' \<notin> name ` set population0" unfolding n names by simp
  from eliminate_agent_removes_first_match[of "''Bo''" population0 manager0 1 "''Received fewest votes''"] h1
  have a: "\<exists>pre gone post. population0 = pre @ gone # post \<and> ''Bo'' \<notin> name ` set pre
         \<and> name gone = ''Bo''
         \<and> fst (eliminate_agent manager0 population0 ''Bo'' 1 ''Received fewest votes'') = Some gone
         \<and> fst (snd (eliminate_agent manager0 population0 ''Bo'' 1 ''Received fewest votes'')) = pre @ post"
    by blast
  from eliminate_agent_removes_first_match[of "''Zed''" population0 manager0 1 "''Received fewest votes''"] h2
  have b: "eliminate_agent manager0 population0 ''Zed'' 1 ''Received fewest votes'' = (None, population0, manager0)"
    by blast
  from h1 a h2 b show ?thesis by (intro conjI)
qed

section \<open>The lineage of an agent\<close>

lemma parent_lookup_Some:
  "parent_lookup hist c = Some p \<Longrightarrow>
     p \<in> set hist \<and> parent_name c = Some (name p) \<and> name p \<noteq> []"
  by (auto simp: parent_lookup_def find_Some_iff split: option.splits if_splits)

lemma parent_lookup_find:
  "parent_lookup hist c = Some p \<Longrightarrow>
     find (\<lambda>historical_agent. name historical_agent = name p) hist = Some p"
  by (auto simp: parent_lookup_def find_Some_iff split: option.splits if_splits)

lemma lineage_loop_step:
  assumes "parent_lookup hist c = Some p"
  shows "lineage_loop hist c l = lineage_loop hist p (l @ [name p])"
proof -
  have a: "parent_name c = Some (name p)" "name p \<noteq> []"
    using parent_lookup_Some[OF assms] by simp_all
  have b: "find (\<lambda>historical_agent. name historical_agent = name p) hist = Some p"
    using assms by (rule parent_lookup_find)
  show ?thesis by (subst lineage_loop.simps) (simp add: a b)
qed

lemma lineage_loop_founder:
  "is_founder c \<Longrightarrow> lineage_loop hist c l = Some l"
  by (subst lineage_loop.simps) (auto simp: is_founder_def)

lemma lineage_loop_missing:
  "parent_name c = Some pn \<Longrightarrow> pn \<noteq> [] \<Longrightarrow> pn \<notin> name ` set hist \<Longrightarrow>
     lineage_loop hist c l = Some (l @ [pn])"
proof -
  assume a: "parent_name c = Some pn" "pn \<noteq> []" "pn \<notin> name ` set hist"
  then have "find (\<lambda>h. name h = pn) hist = None" by (auto simp: find_None_iff)
  with a show ?thesis by (subst lineage_loop.simps) simp
qed

lemma parent_lookup_None:
  "parent_lookup hist c = None \<Longrightarrow>
     is_founder c \<or> (\<exists>pn. parent_name c = Some pn \<and> pn \<noteq> [] \<and> pn \<notin> name ` set hist)"
  by (auto simp: parent_lookup_def is_founder_def find_None_iff split: option.splits if_splits)

lemma lineage_loop_ends:
  assumes "finite S"
  shows "\<And>c l. \<lbrakk>\<forall>p. (c, p) \<in> (lookups hist)\<^sup>+ \<longrightarrow> p \<in> S; no_cycle hist c; l \<noteq> []; last l = name c\<rbrakk>
        \<Longrightarrow> \<exists>r tail x. lineage_loop hist c l = Some r \<and> r = l @ tail \<and> (c, x) \<in> (lookups hist)\<^sup>*
              \<and> ((is_founder x \<and> last r = name x)
                  \<or> (\<exists>pn. parent_name x = Some pn \<and> pn \<noteq> [] \<and> pn \<notin> name ` set hist \<and> last r = pn))"
  using assms
proof (induction S rule: finite_psubset_induct)
  case (psubset S)
  show ?case
  proof (cases "parent_lookup hist c")
    case None
    from parent_lookup_None[OF None] show ?thesis
    proof
      assume f: "is_founder c"
      then have "lineage_loop hist c l = Some l" by (rule lineage_loop_founder)
      moreover have "l = l @ []" by simp
      moreover have "(c, c) \<in> (lookups hist)\<^sup>*" by simp
      moreover have "is_founder c \<and> last l = name c" using f psubset.prems by simp
      ultimately show ?thesis by blast
    next
      assume "\<exists>pn. parent_name c = Some pn \<and> pn \<noteq> [] \<and> pn \<notin> name ` set hist"
      then obtain pn where pn: "parent_name c = Some pn" "pn \<noteq> []" "pn \<notin> name ` set hist" by blast
      then have "lineage_loop hist c l = Some (l @ [pn])" by (rule lineage_loop_missing)
      moreover have "(c, c) \<in> (lookups hist)\<^sup>*" by simp
      moreover have "parent_name c = Some pn \<and> pn \<noteq> [] \<and> pn \<notin> name ` set hist \<and> last (l @ [pn]) = pn"
        using pn by simp
      ultimately show ?thesis by blast
    qed
  next
    case (Some p)
    then have cp: "(c, p) \<in> lookups hist" by (simp add: lookups_def)
    have pS: "p \<in> S" using psubset.prems(1) cp by blast
    have nopp: "(p, p) \<notin> (lookups hist)\<^sup>+"
      using psubset.prems(2) cp unfolding no_cycle_def by blast
    have sub: "S - {p} \<subset> S" using pS by blast
    have reach: "\<forall>q. (p, q) \<in> (lookups hist)\<^sup>+ \<longrightarrow> q \<in> S - {p}"
    proof (intro allI impI)
      fix q assume pq: "(p, q) \<in> (lookups hist)\<^sup>+"
      with cp have "(c, q) \<in> (lookups hist)\<^sup>+" by (rule trancl_into_trancl2)
      with psubset.prems(1) have "q \<in> S" by blast
      moreover have "q \<noteq> p" using pq nopp by blast
      ultimately show "q \<in> S - {p}" by blast
    qed
    have acyc: "no_cycle hist p"
      unfolding no_cycle_def
    proof (intro allI impI)
      fix x assume "(p, x) \<in> (lookups hist)\<^sup>*"
      with cp have "(c, x) \<in> (lookups hist)\<^sup>*" by (rule converse_rtrancl_into_rtrancl)
      with psubset.prems(2) show "(x, x) \<notin> (lookups hist)\<^sup>+" unfolding no_cycle_def by blast
    qed
    have inv: "l @ [name p] \<noteq> []" "last (l @ [name p]) = name p" by simp_all
    from psubset.IH[OF sub reach acyc inv] obtain r tail x where
      ih: "lineage_loop hist p (l @ [name p]) = Some r" "r = (l @ [name p]) @ tail"
          "(p, x) \<in> (lookups hist)\<^sup>*"
          "(is_founder x \<and> last r = name x)
            \<or> (\<exists>pn. parent_name x = Some pn \<and> pn \<noteq> [] \<and> pn \<notin> name ` set hist \<and> last r = pn)"
      by blast
    have "lineage_loop hist c l = Some r" using lineage_loop_step[OF Some] ih(1) by simp
    moreover have "r = l @ (name p # tail)" using ih(2) by simp
    moreover have "(c, x) \<in> (lookups hist)\<^sup>*" using cp ih(3) by (rule converse_rtrancl_into_rtrancl)
    ultimately show ?thesis using ih(4) by blast
  qed
qed

lemma lookups_in_roster: "(c, p) \<in> (lookups hist)\<^sup>+ \<Longrightarrow> p \<in> set hist"
  by (induction rule: trancl_induct) (auto simp: lookups_def dest: parent_lookup_Some)

text \<open>
  Claim C10. If the walk of parent lookups from an agent meets no cycle, \<^verbatim>\<open>get_lineage\<close>
  returns: its result is a non-empty list whose last element is the agent's name and whose
  first element is the name of a founder the walk reaches, or the first parent name that
  is not in the roster.
\<close>

theorem get_lineage_terminates:
  assumes "no_cycle all_history agent"
  shows "\<exists>lineage ancestor.
           get_lineage agent all_history = Some lineage
           \<and> lineage \<noteq> [] \<and> last lineage = name agent
           \<and> (agent, ancestor) \<in> (lookups all_history)\<^sup>*
           \<and> ((is_founder ancestor \<and> hd lineage = name ancestor)
               \<or> (\<exists>pn. parent_name ancestor = Some pn \<and> pn \<noteq> [] \<and> pn \<notin> name ` set all_history
                        \<and> hd lineage = pn))"
proof -
  have "\<forall>p. (agent, p) \<in> (lookups all_history)\<^sup>+ \<longrightarrow> p \<in> set all_history"
    using lookups_in_roster by blast
  from lineage_loop_ends[OF finite_set this assms, of "[name agent]"]
  obtain r tail x where
    h: "lineage_loop all_history agent [name agent] = Some r" "r = [name agent] @ tail"
       "(agent, x) \<in> (lookups all_history)\<^sup>*"
       "(is_founder x \<and> last r = name x)
         \<or> (\<exists>pn. parent_name x = Some pn \<and> pn \<noteq> [] \<and> pn \<notin> name ` set all_history \<and> last r = pn)"
    by auto
  have g: "get_lineage agent all_history = Some (rev r)" by (simp add: get_lineage_def h(1))
  have ne: "r \<noteq> []" using h(2) by simp
  have 1: "rev r \<noteq> []" using ne by simp
  have 2: "last (rev r) = name agent" using h(2) by (simp add: last_rev)
  have 3: "hd (rev r) = last r" using ne by (simp add: hd_rev)
  from g 1 2 3 h(3,4) show ?thesis by auto
qed

lemma no_cycle_by_rank:
  fixes f :: "agent \<Rightarrow> nat"
  assumes "\<And>x p. (agent, x) \<in> (lookups hist)\<^sup>* \<Longrightarrow> parent_lookup hist x = Some p \<Longrightarrow> f p < f x"
  shows "no_cycle hist agent"
proof -
  have down: "(x, y) \<in> (lookups hist)\<^sup>+ \<Longrightarrow> (agent, x) \<in> (lookups hist)\<^sup>* \<Longrightarrow> f y < f x" for x y
  proof (induction rule: trancl_induct)
    case (base y)
    then show ?case using assms by (simp add: lookups_def)
  next
    case (step y z)
    from step.hyps(1) step.prems have "(agent, y) \<in> (lookups hist)\<^sup>*"
      by (meson rtrancl_trans trancl_into_rtrancl)
    with step.hyps(2) have "f z < f y" using assms by (simp add: lookups_def)
    with step.IH[OF step.prems] show ?case by simp
  qed
  show ?thesis unfolding no_cycle_def
  proof (intro allI impI notI)
    fix x assume "(agent, x) \<in> (lookups hist)\<^sup>*" "(x, x) \<in> (lookups hist)\<^sup>+"
    then have "f x < f x" using down by blast
    then show False by simp
  qed
qed

text \<open>
  The grandchild's lineage goes back to the founder; the lineage of an agent whose parent
  is not in the roster ends at the parent's name.
\<close>

theorem get_lineage_terminates_witness:
  "no_cycle roster0 (roster0 ! 2)
   \<and> get_lineage (roster0 ! 2) roster0 = Some [''Al'', ''Al Neo'', ''Al Neo Prime'']
   \<and> last [''Al'', ''Al Neo'', ''Al Neo Prime''] = name (roster0 ! 2)
   \<and> no_cycle roster0 orphan0
   \<and> get_lineage orphan0 roster0 = Some [''Bo'', ''Bo Redux'']
   \<and> get_lineage orphan0 roster0 \<noteq> None"
proof -
  have p2: "parent_lookup roster0 (roster0 ! 2) = Some (roster0 ! 1)" by code_simp
  have p1: "parent_lookup roster0 (roster0 ! 1) = Some (roster0 ! 0)" by code_simp
  have p0: "parent_lookup roster0 (roster0 ! 0) = None" by code_simp
  have po: "parent_lookup roster0 orphan0 = None" by code_simp
  have g2: "generation (roster0 ! 2) = 2" by code_simp
  have g1: "generation (roster0 ! 1) = 1" by code_simp
  have g0: "generation (roster0 ! 0) = 0" by code_simp
  have reach: "(roster0 ! 2, x) \<in> (lookups roster0)\<^sup>* \<Longrightarrow>
                 x = roster0 ! 2 \<or> x = roster0 ! 1 \<or> x = roster0 ! 0" for x
  proof (induction rule: rtrancl_induct)
    case base
    then show ?case by simp
  next
    case (step y z)
    then show ?case using p2 p1 p0 by (auto simp: lookups_def)
  qed
  have n1: "no_cycle roster0 (roster0 ! 2)"
  proof (rule no_cycle_by_rank[where f = generation])
    fix x p assume "(roster0 ! 2, x) \<in> (lookups roster0)\<^sup>*" "parent_lookup roster0 x = Some p"
    with reach[of x] show "generation p < generation x"
      using p2 p1 p0 g2 g1 g0 by auto
  qed
  have reach_o: "(orphan0, x) \<in> (lookups roster0)\<^sup>* \<Longrightarrow> x = orphan0" for x
  proof (induction rule: rtrancl_induct)
    case base
    then show ?case by simp
  next
    case (step y z)
    then show ?case using po by (auto simp: lookups_def)
  qed
  have n2: "no_cycle roster0 orphan0"
  proof (rule no_cycle_by_rank[where f = generation])
    fix x p assume "(orphan0, x) \<in> (lookups roster0)\<^sup>*" "parent_lookup roster0 x = Some p"
    with reach_o[of x] show "generation p < generation x" using po by auto
  qed
  have e1: "get_lineage (roster0 ! 2) roster0 = Some [''Al'', ''Al Neo'', ''Al Neo Prime'']" by code_simp
  have e2: "get_lineage orphan0 roster0 = Some [''Bo'', ''Bo Redux'']" by code_simp
  from get_lineage_terminates[OF n1] obtain lineage where
    l: "get_lineage (roster0 ! 2) roster0 = Some lineage" "last lineage = name (roster0 ! 2)"
    by blast
  from l(1) e1 have "lineage = [''Al'', ''Al Neo'', ''Al Neo Prime'']" by simp
  with l(2) have e3: "last [''Al'', ''Al Neo'', ''Al Neo Prime''] = name (roster0 ! 2)" by simp
  from get_lineage_terminates[OF n2] have e4: "get_lineage orphan0 roster0 \<noteq> None" by auto
  from n1 e1 e3 n2 e2 e4 show ?thesis by (intro conjI)
qed

section \<open>Initialization\<close>

declare pad_personalities.simps [simp del]

lemma pad_personalities_appends_first:
  "personalities \<noteq> [] \<Longrightarrow>
     pad_personalities n personalities
       = Inr (personalities @ replicate (nat (n - int (length personalities))) (personalities ! 0))"
proof (induction n personalities rule: pad_personalities.induct)
  case (1 n ps)
  show ?case
  proof (cases "int (length ps) < n")
    case False
    then show ?thesis by (subst pad_personalities.simps) simp
  next
    case True
    let ?x = "ps ! 0"
    have len: "length ps \<noteq> 0" using "1.prems" by simp
    have m: "length ps mod length ps = 0" by simp
    have step: "pad_personalities n ps = pad_personalities n (ps @ [?x])"
      using True len by (subst pad_personalities.simps) (simp add: m)
    have "pad_personalities n (ps @ [?x])
            = Inr ((ps @ [?x]) @ replicate (nat (n - int (length (ps @ [?x])))) ((ps @ [?x]) ! 0))"
      using "1.IH"[OF True len] by (simp add: m)
    also have "(ps @ [?x]) ! 0 = ?x" using "1.prems" by (cases ps) auto
    also have "(ps @ [?x]) @ replicate (nat (n - int (length (ps @ [?x])))) ?x
                 = ps @ replicate (Suc (nat (n - int (length (ps @ [?x]))))) ?x"
      by (simp add: replicate_app_Cons_same)
    also have "Suc (nat (n - int (length (ps @ [?x])))) = nat (n - int (length ps))"
      using True by simp
    finally show ?thesis using step by simp
  qed
qed

lemma pad_personalities_empty: "0 < n \<Longrightarrow> pad_personalities n [] = Inl ZeroDivisionError"
  by (subst pad_personalities.simps) simp

text \<open>
  Which seed the \<open>i\<close>-th founder gets from a non-empty list: its own while the list
  lasts, the first seed after that.
\<close>

lemma initialize_agents_pads_with_first:
  assumes "personalities \<noteq> []"
  shows "\<exists>self1. initialize_agents self personalities = Inr self1 \<and>
           agents self1 = agents self @
             map (\<lambda>i. let seed = personalities ! (if i < length personalities then i else 0)
                       in Agent (p_name seed) (p_personality seed) (default_model self) 0 None 0)
                 [0 ..< nat (num_agents self)]"
proof -
  let ?padded = "personalities @ replicate (nat (num_agents self - int (length personalities))) (personalities ! 0)"
  have nth: "i < nat (num_agents self) \<Longrightarrow>
               ?padded ! i = personalities ! (if i < length personalities then i else 0)" for i
    by (auto simp: nth_append)
  have "map (\<lambda>i. Agent (p_name (?padded ! i)) (p_personality (?padded ! i)) (default_model self) 0 None 0)
            [0 ..< nat (num_agents self)]
        = map (\<lambda>i. let seed = personalities ! (if i < length personalities then i else 0)
                       in Agent (p_name seed) (p_personality seed) (default_model self) 0 None 0)
              [0 ..< nat (num_agents self)]"
    by (rule map_cong) (simp_all add: nth Let_def del: nth_append)
  then show ?thesis
    by (simp add: initialize_agents_def pad_personalities_appends_first[OF assms] Let_def)
qed

text \<open>
  Claim C3 fails on the code: the index \<^verbatim>\<open>len(personalities) % len(personalities)\<close> of
  the padding loop is always 0, so two seeds for four agents give the founders of seeds
  0, 1, 0, 0 (not 0, 1, 0, 1), and an empty seed list raises \<^verbatim>\<open>ZeroDivisionError\<close>.
\<close>

theorem initialize_agents_repeats_first_seed:
  "map name (agents (projr (initialize_agents (simulation0 4) seeds0))) = [''Al'', ''Bo'', ''Al'', ''Al'']
   \<and> initialize_agents (simulation0 4) [] = Inl ZeroDivisionError"
  by code_simp

section \<open>One round\<close>

lemma generate_answer_name [simp]:
  "name (fst (snd (generate_answer e question round_num (self, w)))) = name self"
  by (simp add: generate_answer_def Let_def case_prod_beta)

lemma collect_answers_spec:
  assumes "collect_answers e question round_num population (answers, w) = (population1, answers1, w1)"
  shows "map name population1 = map name population
         \<and> set (dict_keys answers1) = set (dict_keys answers) \<union> name ` set population"
  using assms
proof (induction population arbitrary: answers w population1 answers1 w1)
  case Nil
  then show ?case by simp
next
  case (Cons agent rest)
  let ?g = "generate_answer e question round_num (agent, w)"
  obtain rest1 answers2 w2 where
    rec: "collect_answers e question round_num rest (dict_set (name agent) (fst ?g) answers, snd (snd ?g))
            = (rest1, answers2, w2)"
    by (rule prod_cases3)
  have "collect_answers e question round_num (agent # rest) (answers, w) = (fst (snd ?g) # rest1, answers2, w2)"
    using rec by (simp add: Let_def case_prod_beta)
  with Cons.prems have eqs: "population1 = fst (snd ?g) # rest1" "answers1 = answers2" by simp_all
  from Cons.IH[OF rec] have
    ih: "map name rest1 = map name rest"
        "set (dict_keys answers2) = set (dict_keys (dict_set (name agent) (fst ?g) answers)) \<union> name ` set rest"
    by simp_all
  show ?case using eqs ih by (simp add: dict_keys_dict_set)
qed

lemma min_item_member: "min_item best xs \<in> set (best # xs)"
  by (induction xs arbitrary: best) (auto split: if_splits)

lemma get_loser_in_tally: "tally_keys res \<noteq> [] \<Longrightarrow> get_loser res \<in> set (tally_keys res)"
proof (cases res)
  case (SingleChoice r q vs ds js t)
  assume "tally_keys res \<noteq> []"
  with SingleChoice obtain x xs where v: "vs = x # xs" by (cases vs) (auto simp: tally_keys_def dict_keys_def)
  have "min_item x xs \<in> set (x # xs)" by (rule min_item_member)
  then have "fst (min_item x xs) \<in> fst ` set (x # xs)" by (rule imageI)
  then show ?thesis using SingleChoice v by (simp add: get_loser_def tally_keys_def dict_keys_def)
next
  case (RankedChoice r q pts ds t)
  assume "tally_keys res \<noteq> []"
  with RankedChoice obtain x xs where v: "pts = x # xs" by (cases pts) (auto simp: tally_keys_def dict_keys_def)
  have "min_item x xs \<in> set (x # xs)" by (rule min_item_member)
  then have "fst (min_item x xs) \<in> fst ` set (x # xs)" by (rule imageI)
  then show ?thesis using RankedChoice v by (simp add: get_loser_def tally_keys_def dict_keys_def)
qed

lemma pop_first_named_names:
  "map name (fst (pop_first_named loser_name population)) = remove1 loser_name (map name population)"
  by (induction population) (auto simp: case_prod_beta)


lemma eliminate_agent_remaining:
  "fst (snd (eliminate_agent em population loser_name round_num reason))
     = fst (pop_first_named loser_name population)"
  by (simp add: eliminate_agent_def case_prod_beta split: option.splits)


lemma pick_weighted_Some:
  "xs \<noteq> [] \<Longrightarrow> length ws = length xs \<Longrightarrow> \<exists>x. pick_weighted xs ws r = Some x \<and> x \<in> set xs"
proof (induction xs ws r rule: pick_weighted.induct)
  case (4 x y xs wt ws r)
  then show ?case by (cases "r < wt") auto
qed auto

lemma positive_weights_total:
  "ws \<noteq> [] \<Longrightarrow> \<forall>x \<in> set ws. 0 < x \<Longrightarrow> sum_list ws \<noteq> 0" for ws :: "nat list"
  by (cases ws) auto

lemma random_choices1_succeeds:
  assumes "xs \<noteq> []" and "length ws = length xs" and "sum_list ws \<noteq> 0"
  shows "\<exists>x. fst (random_choices1 e xs ws w) = Inr x \<and> x \<in> set xs"
proof -
  from pick_weighted_Some[OF assms(1,2), of "rng e (rng_used w) mod sum_list ws"]
  obtain x where x: "pick_weighted xs ws (rng e (rng_used w) mod sum_list ws) = Some x" "x \<in> set xs"
    by blast
  have "fst (random_choices1 e xs ws w) = Inr x"
    using assms(1,3) x(1) by (simp add: random_choices1_def draw_def Let_def)
  with x(2) show ?thesis by blast
qed

lemma select_parent_succeeds:
  assumes "population \<noteq> []"
  shows "\<exists>parent. fst (select_parent e population w) = Inr parent \<and> parent \<in> set population"
proof (cases "length (remdups (map (\<lambda>agent. votes_received agent + 1) population)) = 1")
  case True
  let ?ws = "map (\<lambda>agent. rounds_survived agent + 1) population"
  have s: "select_parent e population w = random_choices1 e population ?ws w"
    using True by (simp add: select_parent_def Let_def)
  have "?ws \<noteq> []" using assms by simp
  moreover have "\<forall>x \<in> set ?ws. 0 < x" by auto
  ultimately have "sum_list ?ws \<noteq> 0" by (rule positive_weights_total)
  with assms show ?thesis unfolding s by (intro random_choices1_succeeds) simp_all
next
  case False
  let ?ws = "map (\<lambda>agent. votes_received agent + 1) population"
  have s: "select_parent e population w = random_choices1 e population ?ws w"
    using False by (simp add: select_parent_def Let_def)
  have "?ws \<noteq> []" using assms by simp
  moreover have "\<forall>x \<in> set ?ws. 0 < x" by auto
  ultimately have "sum_list ?ws \<noteq> 0" by (rule positive_weights_total)
  with assms show ?thesis unfolding s by (intro random_choices1_succeeds) simp_all
qed

lemma create_evolved_agent_empty:
  "fst (create_evolved_agent e em [] round_num mdl base_name w)
     = Inl (ValueError ''Cannot create evolved agent with no existing agents'')"
  by (simp add: create_evolved_agent_def)

lemma create_evolved_agent_succeeds:
  assumes "existing \<noteq> []"
  shows "\<exists>new_agent. fst (create_evolved_agent e em existing round_num mdl base_name w) = Inr new_agent
           \<and> (\<exists>parent \<in> set existing. parent_name new_agent = Some (name parent)
                  \<and> generation new_agent = generation parent + 1)
           \<and> length (creation_history (fst (snd (create_evolved_agent e em existing round_num mdl base_name w))))
               = length (creation_history em) + 1"
proof -
  from select_parent_succeeds[OF assms, of e w] obtain parent where
    p: "fst (select_parent e existing w) = Inr parent" "parent \<in> set existing" by blast
  then obtain w1 where s: "select_parent e existing w = (Inr parent, w1)"
    by (cases "select_parent e existing w") auto
  show ?thesis using assms p(2)
    by (auto simp: create_evolved_agent_def s Let_def case_prod_beta Agent_def)
qed

lemma run_round_Inr:
  assumes "run_round e self round_num question w = (Inr result, self1, w1)"
  shows "\<exists>answered answers w0 vote_results voting1 voted w2 new_agent.
     collect_answers e question round_num (survivors_of self) ([], w) = (answered, answers, w0)
     \<and> conduct_vote e (voting self) answered question answers round_num w0
         = Inr (vote_results, voting1, voted, w2)
     \<and> fst (create_evolved_agent e
              (snd (snd (eliminate_agent (evolution self) voted (get_loser vote_results) round_num ''Received fewest votes'')))
              (fst (snd (eliminate_agent (evolution self) voted (get_loser vote_results) round_num ''Received fewest votes'')))
              round_num (default_model self) None w2) = Inr new_agent
     \<and> agents self1
         = fst (snd (eliminate_agent (evolution self) voted (get_loser vote_results) round_num ''Received fewest votes''))
           @ [new_agent]
     \<and> rr_eliminated result = get_loser vote_results
     \<and> rr_evolved result = name new_agent"
proof -
  obtain answered answers w0 where
    ca: "collect_answers e question round_num (survivors_of self) ([], w) = (answered, answers, w0)"
    by (rule prod_cases3)
  show ?thesis
  proof (cases "conduct_vote e (voting self) answered question answers round_num w0")
    case (Inl err)
    with assms ca show ?thesis by (simp add: run_round_def survivors_of_def Let_def)
  next
    case (Inr x)
    obtain vote_results voting1 voted w2 where x: "x = (vote_results, voting1, voted, w2)"
      by (rule prod_cases4)
    let ?elim = "eliminate_agent (evolution self) voted (get_loser vote_results) round_num ''Received fewest votes''"
    let ?cea = "create_evolved_agent e (snd (snd ?elim)) (fst (snd ?elim)) round_num (default_model self) None w2"
    have nv: "\<not> (verbose self \<and> tally_keys vote_results = [])"
      using assms ca Inr x by (auto simp: run_round_def survivors_of_def Let_def)
    have rr: "run_round e self round_num question w =
       (case ?cea of
          (Inl err, evolution2, w3) \<Rightarrow>
            (Inl err, self\<lparr>agents := fst (snd ?elim), voting := voting1, evolution := evolution2\<rparr>, w3)
        | (Inr new_agent, evolution2, w3) \<Rightarrow>
            (Inr \<lparr>rr_round = round_num, rr_question = question, rr_answers = answers,
                  rr_votes = vote_results, rr_eliminated = get_loser vote_results,
                  rr_evolved = name new_agent\<rparr>,
             self\<lparr>agents := fst (snd ?elim) @ [new_agent], voting := voting1,
                   all_agents_history := all_agents_history self @ [new_agent],
                   evolution := evolution2\<rparr>,
             w3))"
      using ca Inr x nv
      by (auto simp: run_round_def survivors_of_def Let_def case_prod_beta split: sum.splits)
    obtain r ev2 w3 where cea: "?cea = (r, ev2, w3)" by (rule prod_cases3)
    show ?thesis
    proof (cases r)
      case (Inl err)
      with assms rr cea show ?thesis by simp
    next
      case (Inr new_agent)
      with assms rr cea have
        "agents self1 = fst (snd ?elim) @ [new_agent]"
        "rr_eliminated result = get_loser vote_results" "rr_evolved result = name new_agent"
        by auto
      moreover have "fst ?cea = Inr new_agent" using cea Inr by simp
      ultimately show ?thesis using ca \<open>conduct_vote e (voting self) answered question answers round_num w0 = Inr x\<close> x
        by blast
    qed
  qed
qed

lemma survivors_of_names [simp]: "map name (survivors_of self) = map name (agents self)"
  by (simp add: survivors_of_def comp_def)

text \<open>
  The names before the elimination are those of the population, in order; with a
  non-empty population the tally is not empty and the loser is one of the names.
\<close>

lemma round_vote_names:
  assumes ca: "collect_answers e question round_num (survivors_of self) ([], w) = (answered, answers, w0)"
    and cv: "conduct_vote e (voting self) answered question answers round_num w0
               = Inr (vote_results, voting1, voted, w2)"
  shows "map name voted = map name (agents self)"
    and "agents self \<noteq> [] \<Longrightarrow> tally_keys vote_results \<noteq> []"
    and "agents self \<noteq> [] \<Longrightarrow> get_loser vote_results \<in> set (map name (agents self))"
proof -
  from collect_answers_spec[OF ca] have
    a: "map name answered = map name (agents self)"
       "set (dict_keys answers) = name ` set (survivors_of self)"
    by (simp_all add: dict_keys_def)
  from conduct_vote_spec[OF cv] have
    v: "set (tally_keys vote_results) \<subseteq> set (dict_keys answers) \<union> name ` set answered"
       "map name voted = map name answered"
       "answered \<noteq> [] \<longrightarrow> tally_keys vote_results \<noteq> []"
    by blast+
  show n: "map name voted = map name (agents self)" using a(1) v(2) by simp
  have s1: "name ` set (survivors_of self) = set (map name (agents self))"
    using survivors_of_names[of self] by (metis set_map)
  have s2: "name ` set answered = set (map name (agents self))"
    using a(1) by (metis set_map)
  have sub: "set (tally_keys vote_results) \<subseteq> set (map name (agents self))"
    using v(1) a(2) s1 s2 by simp
  have ne: "agents self \<noteq> [] \<Longrightarrow> answered \<noteq> []" using a(1) by (metis map_is_Nil_conv)
  show t: "agents self \<noteq> [] \<Longrightarrow> tally_keys vote_results \<noteq> []" using ne v(3) by blast
  show "agents self \<noteq> [] \<Longrightarrow> get_loser vote_results \<in> set (map name (agents self))"
    using get_loser_in_tally[of vote_results] t sub by blast
qed

lemma remove1_length_member: "x \<in> set xs \<Longrightarrow> length (remove1 x xs) + 1 = length xs"
  by (induction xs) auto

text \<open>
  With a valid voting method, a round of two or more agents returns; a round of a lone
  agent eliminates it and then raises, since no agent is left to evolve from.
\<close>

lemma run_round_after_vote:
  assumes ca: "collect_answers e question round_num (survivors_of self) ([], w) = (answered, answers, w0)"
    and cv: "conduct_vote e (voting self) answered question answers round_num w0
               = Inr (vote_results, voting1, voted, w2)"
    and nv: "tally_keys vote_results \<noteq> []"
  shows "run_round e self round_num question w =
       (case create_evolved_agent e
               (snd (snd (eliminate_agent (evolution self) voted (get_loser vote_results) round_num ''Received fewest votes'')))
               (fst (snd (eliminate_agent (evolution self) voted (get_loser vote_results) round_num ''Received fewest votes'')))
               round_num (default_model self) None w2 of
          (Inl err, evolution2, w3) \<Rightarrow>
            (Inl err,
             self\<lparr>agents := fst (snd (eliminate_agent (evolution self) voted (get_loser vote_results) round_num ''Received fewest votes'')),
                   voting := voting1, evolution := evolution2\<rparr>, w3)
        | (Inr new_agent, evolution2, w3) \<Rightarrow>
            (Inr \<lparr>rr_round = round_num, rr_question = question, rr_answers = answers,
                  rr_votes = vote_results, rr_eliminated = get_loser vote_results,
                  rr_evolved = name new_agent\<rparr>,
             self\<lparr>agents := fst (snd (eliminate_agent (evolution self) voted (get_loser vote_results) round_num ''Received fewest votes'')) @ [new_agent],
                   voting := voting1,
                   all_agents_history := all_agents_history self @ [new_agent],
                   evolution := evolution2\<rparr>,
             w3))"
  using ca cv nv
  by (auto simp: run_round_def survivors_of_def Let_def case_prod_beta split: sum.splits)

lemma conduct_vote_valid_method:
  assumes "voting_method vs = ''single-choice'' \<or> voting_method vs = ''ranked-choice''"
  shows "\<exists>vote_results voting1 voted w2.
           conduct_vote e vs population question answers round_num w = Inr (vote_results, voting1, voted, w2)"
proof -
  obtain a b c d where "single_choice_vote e vs population question answers round_num w = (a, b, c, d)"
    by (rule prod_cases4)
  moreover obtain a' b' c' d' where "ranked_choice_vote e vs population question answers round_num w = (a', b', c', d')"
    by (rule prod_cases4)
  ultimately show ?thesis using assms by (auto simp: conduct_vote_def)
qed

lemma run_round_completes:
  assumes "2 \<le> length (agents self)"
    and "voting_method (voting self) = ''single-choice'' \<or> voting_method (voting self) = ''ranked-choice''"
  shows "\<exists>result self1 w1. run_round e self round_num question w = (Inr result, self1, w1)"
proof -
  obtain answered answers w0 where
    ca: "collect_answers e question round_num (survivors_of self) ([], w) = (answered, answers, w0)"
    by (rule prod_cases3)
  from conduct_vote_valid_method[OF assms(2), of e answered question answers round_num w0]
  obtain vote_results voting1 voted w2 where
    cv: "conduct_vote e (voting self) answered question answers round_num w0
               = Inr (vote_results, voting1, voted, w2)" by blast
  have ne: "agents self \<noteq> []" using assms(1) by auto
  have names: "map name voted = map name (agents self)" using ca cv by (rule round_vote_names(1))
  have nv: "tally_keys vote_results \<noteq> []" using ca cv ne by (rule round_vote_names(2))
  have loser: "get_loser vote_results \<in> set (map name (agents self))" using ca cv ne by (rule round_vote_names(3))
  let ?elim = "eliminate_agent (evolution self) voted (get_loser vote_results) round_num ''Received fewest votes''"
  let ?remaining = "fst (snd ?elim)"
  have "map name ?remaining = remove1 (get_loser vote_results) (map name (agents self))"
    using pop_first_named_names[of "get_loser vote_results" voted] names
    by (simp add: eliminate_agent_remaining)
  then have "length ?remaining + 1 = length (agents self)"
    using remove1_length_member[OF loser] by (metis length_map)
  then have "?remaining \<noteq> []" using assms(1) by auto
  from create_evolved_agent_succeeds[OF this, of e "snd (snd ?elim)" round_num "default_model self" None w2]
  obtain new_agent where
    "fst (create_evolved_agent e (snd (snd ?elim)) ?remaining round_num (default_model self) None w2) = Inr new_agent"
    by blast
  then obtain ev2 w3 where
    "create_evolved_agent e (snd (snd ?elim)) ?remaining round_num (default_model self) None w2 = (Inr new_agent, ev2, w3)"
    by (metis prod.collapse)
  then show ?thesis using run_round_after_vote[OF ca cv nv] by simp
qed

lemma run_round_lone_agent_raises:
  assumes "length (agents self) = 1"
    and "voting_method (voting self) = ''single-choice'' \<or> voting_method (voting self) = ''ranked-choice''"
  shows "\<exists>self1 w1. run_round e self round_num question w
           = (Inl (ValueError ''Cannot create evolved agent with no existing agents''), self1, w1)
         \<and> agents self1 = []"
proof -
  obtain answered answers w0 where
    ca: "collect_answers e question round_num (survivors_of self) ([], w) = (answered, answers, w0)"
    by (rule prod_cases3)
  from conduct_vote_valid_method[OF assms(2), of e answered question answers round_num w0]
  obtain vote_results voting1 voted w2 where
    cv: "conduct_vote e (voting self) answered question answers round_num w0
               = Inr (vote_results, voting1, voted, w2)" by blast
  have ne: "agents self \<noteq> []" using assms(1) by auto
  have names: "map name voted = map name (agents self)" using ca cv by (rule round_vote_names(1))
  have nv: "tally_keys vote_results \<noteq> []" using ca cv ne by (rule round_vote_names(2))
  have loser: "get_loser vote_results \<in> set (map name (agents self))" using ca cv ne by (rule round_vote_names(3))
  let ?elim = "eliminate_agent (evolution self) voted (get_loser vote_results) round_num ''Received fewest votes''"
  let ?remaining = "fst (snd ?elim)"
  have "map name ?remaining = remove1 (get_loser vote_results) (map name (agents self))"
    using pop_first_named_names[of "get_loser vote_results" voted] names
    by (simp add: eliminate_agent_remaining)
  then have "length ?remaining + 1 = length (agents self)"
    using remove1_length_member[OF loser] by (metis length_map)
  then have r: "?remaining = []" using assms(1) by auto
  show ?thesis using run_round_after_vote[OF ca cv nv]
    by (simp add: r create_evolved_agent_def)
qed

text \<open>
  Whenever \<^verbatim>\<open>run_round\<close> returns, the population has the size it had before: the
  eliminated name is the name of an agent of the population, and the names after the round
  are the names before it without the first occurrence of the eliminated name, and with the
  name of the one new agent appended.
\<close>

lemma run_round_returned_population:
  assumes "run_round e self round_num question w = (Inr result, self1, w1)"
  shows "length (agents self1) = length (agents self)
         \<and> rr_eliminated result \<in> set (map name (agents self))
         \<and> map name (agents self1)
             = remove1 (rr_eliminated result) (map name (agents self)) @ [rr_evolved result]"
proof -
  from run_round_Inr[OF assms] obtain answered answers w0 vote_results voting1 voted w2 new_agent where
    ca: "collect_answers e question round_num (survivors_of self) ([], w) = (answered, answers, w0)"
    and cv: "conduct_vote e (voting self) answered question answers round_num w0
               = Inr (vote_results, voting1, voted, w2)"
    and cea: "fst (create_evolved_agent e
              (snd (snd (eliminate_agent (evolution self) voted (get_loser vote_results) round_num ''Received fewest votes'')))
              (fst (snd (eliminate_agent (evolution self) voted (get_loser vote_results) round_num ''Received fewest votes'')))
              round_num (default_model self) None w2) = Inr new_agent"
    and ag: "agents self1
         = fst (snd (eliminate_agent (evolution self) voted (get_loser vote_results) round_num ''Received fewest votes''))
           @ [new_agent]"
    and el: "rr_eliminated result = get_loser vote_results"
    and ev: "rr_evolved result = name new_agent"
    by blast
  let ?loser = "get_loser vote_results"
  let ?remaining = "fst (pop_first_named ?loser voted)"
  have rem: "fst (snd (eliminate_agent (evolution self) voted ?loser round_num ''Received fewest votes'')) = ?remaining"
    by (rule eliminate_agent_remaining)
  have "?remaining \<noteq> []"
  proof
    assume "?remaining = []"
    with cea rem show False by (simp add: create_evolved_agent_empty)
  qed
  then have "voted \<noteq> []" by auto
  have names: "map name voted = map name (agents self)" using ca cv by (rule round_vote_names(1))
  then have ne: "agents self \<noteq> []" using \<open>voted \<noteq> []\<close> by (metis map_is_Nil_conv)
  have loser: "?loser \<in> set (map name (agents self))" using ca cv ne by (rule round_vote_names(3))
  have rn: "map name ?remaining = remove1 ?loser (map name (agents self))"
    using pop_first_named_names[of ?loser voted] names by simp
  have m: "map name (agents self1) = remove1 ?loser (map name (agents self)) @ [name new_agent]"
    using ag rem rn by simp
  have "length (map name (agents self1)) = length (remove1 ?loser (map name (agents self))) + 1"
    unfolding m by simp
  also have "\<dots> = length (map name (agents self))" using loser by (rule remove1_length_member)
  finally have len: "length (agents self1) = length (agents self)" by simp
  from len loser m show ?thesis unfolding el ev by (intro conjI)
qed






end
